theory Spec2Isabelle
  imports Main
begin

section \<open>The part collection of the LS-Dyna reader\<close>

text \<open>
  A shallow embedding of \<^verbatim>\<open>IO/vtkLSDynaPartCollection.cxx\<close>. The type
  \<^verbatim>\<open>vtkIdType\<close> is declared in a header outside this file; it is taken to be the 64 bit
  integer of the default build and modelled as an unbounded integer: every property below
  is about cell and point counts that fit it. An \<^verbatim>\<open>int\<close> has 32 bits, and where the code
  stores a \<^verbatim>\<open>vtkIdType\<close> value in an \<^verbatim>\<open>int\<close> the model converts it with \<open>int_of_vtkIdType\<close>.
  A pointer to a part is an optional
  part (\<open>None\<close> is the null pointer); what the part itself does when the collection calls it
  lives outside this file, so each call on a part is recorded as a value of \<open>part_call\<close>, in
  the order the calls are made. A read through a pointer or an index that C++ leaves
  undefined is an \<open>error\<close> value.
\<close>

subsection \<open>Data\<close>

record vtkLSDynaPart =
  GetPartId :: int
  GetMinGlobalPointId :: int
  GetMaxGlobalPointId :: int

text \<open>The run length block \<^verbatim>\<open>PartInfo\<close>, with the fields in the order of the struct.\<close>

record PartInfo =
  numCells :: int
  startId :: int
  cellStructureSize :: int
  partId :: int
  part :: "vtkLSDynaPart option"

text \<open>The constructor: the block is created for its first cell.\<close>

definition PartInfo_new :: "vtkLSDynaPart option \<Rightarrow> int \<Rightarrow> int \<Rightarrow> int \<Rightarrow> PartInfo" where
  "PartInfo_new p pId start npts =
     \<lparr>numCells = 1, startId = start, cellStructureSize = npts, partId = pId, part = p\<rparr>"

text \<open>
  \<^verbatim>\<open>PartInsertion\<close>: the iterator \<^verbatim>\<open>pIt\<close> is a position in the block vector of its type;
  the default constructor leaves it singular (\<open>None\<close>).
\<close>

record PartInsertion =
  pIt :: "nat option"
  numCellsInserted :: int

definition PartInsertion_default :: PartInsertion where
  "PartInsertion_default = \<lparr>pIt = None, numCellsInserted = 0\<rparr>"

definition PartInsertion_begin :: PartInsertion where
  "PartInsertion_begin = \<lparr>pIt = Some 0, numCellsInserted = 0\<rparr>"

datatype error = OutOfBounds | SingularIterator | PastTheEnd | EmptyList

text \<open>
  The calls the collection makes on a part. A buffer pointer is the offset of the pointer
  from the start of the buffer that was passed in.
\<close>

datatype part_call =
    AddCell vtkLSDynaPart int int "int list"
  | ReadCellProperties vtkLSDynaPart int int int
  | EnableCellUserIds vtkLSDynaPart
  | SetNextCellUserIds vtkLSDynaPart int
  | EnableDeadCells vtkLSDynaPart
  | SetCellsDeadState vtkLSDynaPart int int
  | ReadPointBasedProperty vtkLSDynaPart int int int

text \<open>
  \<^verbatim>\<open>LSDynaPartStorage\<close>. \<^verbatim>\<open>Info\<close> and \<^verbatim>\<open>CellInsertionIterators\<close> are arrays indexed by the
  part type, an enumerator of \<^verbatim>\<open>LSDynaMetaData::LSDYNA_TYPES\<close> that the callers pass as an
  \<^verbatim>\<open>int\<close>. The pair \<^verbatim>\<open>CellIterator\<close>, \<^verbatim>\<open>CellIteratorEnd\<close> is the range of blocks between the
  two iterators.
\<close>

record LSDynaPartStorage =
  NumParts :: int
  Parts :: "vtkLSDynaPart option list"
  Info :: "int \<Rightarrow> PartInfo list"
  CellInsertionIterators :: "int \<Rightarrow> PartInsertion"
  CellIterator :: "PartInfo list"

definition LSDynaPartStorage_new :: "int \<Rightarrow> LSDynaPartStorage" where
  "LSDynaPartStorage_new numMaterials =
     \<lparr>NumParts = numMaterials,
      Parts = replicate (nat numMaterials) None,
      Info = (\<lambda>_. []),
      CellInsertionIterators = (\<lambda>_. PartInsertion_default),
      CellIterator = []\<rparr>"

text \<open>\<^verbatim>\<open>this->Parts[index]\<close>, read and written.\<close>

definition Parts_at :: "LSDynaPartStorage \<Rightarrow> int \<Rightarrow> error + vtkLSDynaPart option" where
  "Parts_at st index =
     (if 0 \<le> index \<and> index < int (length (Parts st))
      then Inr (Parts st ! nat index) else Inl OutOfBounds)"

definition ConstructPart :: "LSDynaPartStorage \<Rightarrow> int \<Rightarrow> vtkLSDynaPart \<Rightarrow> error + LSDynaPartStorage" where
  "ConstructPart st index p =
     (if 0 \<le> index \<and> index < int (length (Parts st))
      then Inr (st\<lparr>Parts := (Parts st)[nat index := Some p]\<rparr>) else Inl OutOfBounds)"

subsection \<open>Registration\<close>

definition RegisterCell ::
  "LSDynaPartStorage \<Rightarrow> int \<Rightarrow> int \<Rightarrow> int \<Rightarrow> error + LSDynaPartStorage" where
  "RegisterCell st partType matId npts =
     (if length (Info st partType) \<noteq> 0 then
        (let info = last (Info st partType) in
         if partId info = matId then
           Inr (st\<lparr>Info := (Info st)(partType :=
                  butlast (Info st partType) @
                  [info\<lparr>numCells := numCells info + 1,
                        cellStructureSize := cellStructureSize info + npts\<rparr>])\<rparr>)
         else
           (case Parts_at st matId of
              Inl e \<Rightarrow> Inl e
            | Inr p \<Rightarrow>
                Inr (st\<lparr>Info := (Info st)(partType :=
                       Info st partType @
                       [PartInfo_new p matId (startId info + numCells info) npts])\<rparr>)))
      else
        (case Parts_at st matId of
           Inl e \<Rightarrow> Inl e
         | Inr p \<Rightarrow>
             Inr (st\<lparr>Info := (Info st)(partType :=
                    Info st partType @ [PartInfo_new p matId 0 npts])\<rparr>)))"

text \<open>
  The registration pass of the reader: one call per cell, each with the part type, the
  material index and the number of points of the cell.
\<close>

fun RegisterCells ::
  "LSDynaPartStorage \<Rightarrow> (int \<times> int \<times> int) list \<Rightarrow> error + LSDynaPartStorage" where
  "RegisterCells st [] = Inr st"
| "RegisterCells st ((partType, matId, npts) # calls) =
     (case RegisterCell st partType matId npts of
        Inl e \<Rightarrow> Inl e
      | Inr st' \<Rightarrow> RegisterCells st' calls)"

definition GetMemorySizesForPart :: "LSDynaPartStorage \<Rightarrow> int \<Rightarrow> int \<Rightarrow> int \<times> int" where
  "GetMemorySizesForPart st partType matId =
     fold (\<lambda>info (n, len).
             if partId info = matId
             then (n + numCells info, len + cellStructureSize info)
             else (n, len))
          (Info st partType) (0, 0)"

subsection \<open>The insertion cursor\<close>

definition InitCellInsertion :: "LSDynaPartStorage \<Rightarrow> LSDynaPartStorage" where
  "InitCellInsertion st =
     st\<lparr>CellInsertionIterators :=
          (\<lambda>i. if length (Info st i) > 0 then PartInsertion_begin
               else CellInsertionIterators st i)\<rparr>"

text \<open>
  \<^verbatim>\<open>PartInsertion::inc\<close> reads the block under \<^verbatim>\<open>pIt\<close>, so it takes the vector the
  iterator points into.
\<close>

definition PartInsertion_inc :: "PartInfo list \<Rightarrow> PartInsertion \<Rightarrow> error + PartInsertion" where
  "PartInsertion_inc info it =
     (case pIt it of
        None \<Rightarrow> Inl SingularIterator
      | Some i \<Rightarrow>
          if i < length info then
            (let n = numCellsInserted it + 1 in
             if numCells (info ! i) = n
             then Inr \<lparr>pIt = Some (Suc i), numCellsInserted = 0\<rparr>
             else Inr (it\<lparr>numCellsInserted := n\<rparr>))
          else Inl PastTheEnd)"

definition InsertCell ::
  "LSDynaPartStorage \<Rightarrow> int \<Rightarrow> int \<Rightarrow> int \<Rightarrow> int list \<Rightarrow>
     error + (part_call list \<times> LSDynaPartStorage)" where
  "InsertCell st partType cellType npts conn =
     (let it = CellInsertionIterators st partType in
      case pIt it of
        None \<Rightarrow> Inl SingularIterator
      | Some i \<Rightarrow>
          if i < length (Info st partType) then
            (let calls = (case part (Info st partType ! i) of
                            Some p \<Rightarrow> [AddCell p cellType npts conn]
                          | None \<Rightarrow> []) in
             case PartInsertion_inc (Info st partType) it of
               Inl e \<Rightarrow> Inl e
             | Inr it' \<Rightarrow>
                 Inr (calls,
                      st\<lparr>CellInsertionIterators :=
                           (CellInsertionIterators st)(partType := it')\<rparr>))
          else Inl PastTheEnd)"

text \<open>
  The insertion pass for one part type: one call per cell, each with the cell type, the
  number of points and the connectivity of the cell.
\<close>

fun InsertCells ::
  "LSDynaPartStorage \<Rightarrow> int \<Rightarrow> (int \<times> int \<times> int list) list \<Rightarrow>
     error + (part_call list \<times> LSDynaPartStorage)" where
  "InsertCells st partType [] = Inr ([], st)"
| "InsertCells st partType ((cellType, npts, conn) # cells) =
     (case InsertCell st partType cellType npts conn of
        Inl e \<Rightarrow> Inl e
      | Inr (calls, st') \<Rightarrow>
          (case InsertCells st' partType cells of
             Inl e \<Rightarrow> Inl e
           | Inr (calls', st'') \<Rightarrow> Inr (calls @ calls', st'')))"

subsection \<open>The part directory\<close>

definition PartExists :: "LSDynaPartStorage \<Rightarrow> int \<Rightarrow> error + bool" where
  "PartExists st index =
     (if index < 0 \<or> index > NumParts st then Inr False
      else (case Parts_at st index of
              Inl e \<Rightarrow> Inl e
            | Inr p \<Rightarrow> Inr (p \<noteq> None)))"

definition IsActivePart :: "LSDynaPartStorage \<Rightarrow> int \<Rightarrow> error + bool" where
  "IsActivePart st ident = PartExists st ident"

subsection \<open>Iteration over the blocks of a part type\<close>

text \<open>
  The conversion of a \<^verbatim>\<open>vtkIdType\<close> value to \<^verbatim>\<open>int\<close>: the value is kept when it lies
  between \<open>- 2^31\<close> and \<open>2^31 - 1\<close>, and wraps around modulo \<open>2^32\<close> otherwise.
\<close>

definition int_of_vtkIdType :: "int \<Rightarrow> int" where
  "int_of_vtkIdType x = (x + 2147483648) mod 4294967296 - 2147483648"

text \<open>
  The loop of \<^verbatim>\<open>InitCellIteration\<close>. The variable \<^verbatim>\<open>pos\<close> is an \<^verbatim>\<open>int\<close> and \<^verbatim>\<open>numCells\<close> a
  \<^verbatim>\<open>vtkIdType\<close>, so \<^verbatim>\<open>pos -= numCells\<close> subtracts in \<^verbatim>\<open>vtkIdType\<close> and converts the
  difference back to \<^verbatim>\<open>int\<close>.
\<close>

function InitCellIteration_loop :: "int \<Rightarrow> PartInfo list \<Rightarrow> PartInfo list" where
  "InitCellIteration_loop pos it =
     (if pos > 0 \<and> it \<noteq> [] then
        (let pos' = int_of_vtkIdType (pos - numCells (hd it)) in
         if pos' > 0 then InitCellIteration_loop pos' (tl it)
         else InitCellIteration_loop pos' it)
      else it)"
  by pat_completeness auto
termination
  by (relation "measure (\<lambda>(pos, it). 2 * length it + (if pos > 0 then 1 else 0))") auto

declare InitCellIteration_loop.simps [simp del]

text \<open>
  The parameter \<^verbatim>\<open>pos\<close> is an \<^verbatim>\<open>int\<close>: a \<^verbatim>\<open>vtkIdType\<close> argument, such as the \<^verbatim>\<open>startId\<close>
  that \<^verbatim>\<open>FillCellArray\<close> passes, is converted on the way in.
\<close>

definition InitCellIteration :: "LSDynaPartStorage \<Rightarrow> int \<Rightarrow> int \<Rightarrow> LSDynaPartStorage" where
  "InitCellIteration st partType pos =
     st\<lparr>CellIterator := InitCellIteration_loop (int_of_vtkIdType pos) (Info st partType)\<rparr>"

definition GetNextCellPart ::
  "LSDynaPartStorage \<Rightarrow> (int \<times> int \<times> vtkLSDynaPart option) option \<times> LSDynaPartStorage" where
  "GetNextCellPart st =
     (case CellIterator st of
        [] \<Rightarrow> (None, st)
      | b # rest \<Rightarrow> (Some (startId b, numCells b, part b), st\<lparr>CellIterator := rest\<rparr>))"

lemma GetNextCellPart_shorter:
  "GetNextCellPart st = (Some x, st') \<Longrightarrow> length (CellIterator st') < length (CellIterator st)"
  by (auto simp: GetNextCellPart_def split: list.splits)

subsection \<open>Dead cells\<close>

function SetCellDeadFlags_loop ::
  "LSDynaPartStorage \<Rightarrow> int \<Rightarrow> part_call list \<Rightarrow> part_call list \<times> int \<times> LSDynaPartStorage" where
  "SetCellDeadFlags_loop st dead calls =
     (case GetNextCellPart st of
        (None, st') \<Rightarrow> (calls, dead, st')
      | (Some (gs, n, p), st') \<Rightarrow>
          SetCellDeadFlags_loop st' (dead + n)
            (case p of
               Some q \<Rightarrow> calls @ [EnableDeadCells q, SetCellsDeadState q dead n]
             | None \<Rightarrow> calls))"
  by pat_completeness auto
termination
  by (relation "measure (\<lambda>(st, dead, calls). length (CellIterator st))")
     (auto dest: GetNextCellPart_shorter [OF sym])

declare SetCellDeadFlags_loop.simps [simp del]

text \<open>
  The array \<^verbatim>\<open>death\<close> is \<open>None\<close> when the pointer is null. The result is the calls made on
  the parts, the final value of the pointer \<^verbatim>\<open>dead\<close> and the storage.
\<close>

definition SetCellDeadFlags ::
  "LSDynaPartStorage \<Rightarrow> int \<Rightarrow> int list option \<Rightarrow> part_call list \<times> int \<times> LSDynaPartStorage" where
  "SetCellDeadFlags st partType death =
     (case death of
        None \<Rightarrow> ([], 0, st)
      | Some _ \<Rightarrow> SetCellDeadFlags_loop (InitCellIteration st partType 0) 0 [])"

subsection \<open>Cell properties and user ids\<close>

function FillCellArray_loop ::
  "LSDynaPartStorage \<Rightarrow> int \<Rightarrow> int \<Rightarrow> int \<Rightarrow> int \<Rightarrow> part_call list \<Rightarrow>
     part_call list \<times> int \<times> LSDynaPartStorage" where
  "FillCellArray_loop st firstId nCells numPropertiesInCell loc calls =
     (case GetNextCellPart st of
        (None, st') \<Rightarrow> (calls, loc, st')
      | (Some (globalStartId, blockSize, p), st') \<Rightarrow>
          (let start = max globalStartId firstId;
               stop = min (globalStartId + blockSize) (firstId + nCells) in
           if stop < start then (calls, loc, st')
           else
             (let isz = stop - start in
              FillCellArray_loop st' firstId nCells numPropertiesInCell
                (loc + isz * numPropertiesInCell)
                (case p of
                   Some q \<Rightarrow> calls @ [ReadCellProperties q loc isz numPropertiesInCell]
                 | None \<Rightarrow> calls))))"
  by pat_completeness auto
termination
  by (relation "measure (\<lambda>(st, firstId, nCells, k, loc, calls). length (CellIterator st))")
     (auto dest: GetNextCellPart_shorter [OF sym])

declare FillCellArray_loop.simps [simp del]

text \<open>
  The result is the calls made on the parts, the final value of the pointer \<^verbatim>\<open>loc\<close> and the
  storage.
\<close>

definition FillCellArray ::
  "LSDynaPartStorage \<Rightarrow> int \<Rightarrow> int \<Rightarrow> int \<Rightarrow> int \<Rightarrow>
     part_call list \<times> int \<times> LSDynaPartStorage" where
  "FillCellArray st type firstId nCells numPropertiesInCell =
     FillCellArray_loop (InitCellIteration st type firstId) firstId nCells
       numPropertiesInCell 0 []"

definition FillCellProperties ::
  "LSDynaPartStorage \<Rightarrow> int \<Rightarrow> int \<Rightarrow> int \<Rightarrow> int \<Rightarrow>
     part_call list \<times> int \<times> LSDynaPartStorage" where
  "FillCellProperties st type firstId nCells numPropertiesInCell =
     FillCellArray st type firstId nCells numPropertiesInCell"

text \<open>The buffer of user ids gives the value stored at each offset.\<close>

function FillCellUserIdArray_loop ::
  "LSDynaPartStorage \<Rightarrow> (int \<Rightarrow> int) \<Rightarrow> int \<Rightarrow> int \<Rightarrow> int \<Rightarrow> part_call list \<Rightarrow>
     part_call list \<times> int \<times> LSDynaPartStorage" where
  "FillCellUserIdArray_loop st buffer firstId nCells loc calls =
     (case GetNextCellPart st of
        (None, st') \<Rightarrow> (calls, loc, st')
      | (Some (globalStartId, blockSize, p), st') \<Rightarrow>
          (let start = max globalStartId firstId;
               stop = min (globalStartId + blockSize) (firstId + nCells) in
           if stop < start then (calls, loc, st')
           else
             (let isz = stop - start in
              FillCellUserIdArray_loop st' buffer firstId nCells (loc + isz)
                (case p of
                   Some q \<Rightarrow>
                     calls @ EnableCellUserIds q #
                       map (\<lambda>i. SetNextCellUserIds q (buffer (loc + i))) [0..isz - 1]
                 | None \<Rightarrow> calls))))"
  by pat_completeness auto
termination
  by (relation "measure (\<lambda>(st, buffer, firstId, nCells, loc, calls). length (CellIterator st))")
     (auto dest: GetNextCellPart_shorter [OF sym])

declare FillCellUserIdArray_loop.simps [simp del]

definition FillCellUserIdArray ::
  "LSDynaPartStorage \<Rightarrow> (int \<Rightarrow> int) \<Rightarrow> int \<Rightarrow> int \<Rightarrow> int \<Rightarrow>
     part_call list \<times> int \<times> LSDynaPartStorage" where
  "FillCellUserIdArray st buffer type firstId nCells =
     FillCellUserIdArray_loop (InitCellIteration st type firstId) buffer firstId nCells 0 []"

subsection \<open>Read planning\<close>

text \<open>
  The fields of the collection that the read planning uses: \<^verbatim>\<open>MetaData->NumberOfCells\<close>,
  \<^verbatim>\<open>MinIds\<close>, \<^verbatim>\<open>MaxIds\<close> (arrays indexed by the part type) and \<^verbatim>\<open>Storage\<close>.
\<close>

record vtkLSDynaPartCollection =
  NumberOfCells :: "int \<Rightarrow> int"
  MinIds :: "int \<Rightarrow> int"
  MaxIds :: "int \<Rightarrow> int"
  Storage :: LSDynaPartStorage

text \<open>The result is \<^verbatim>\<open>(numberOfCells, numCellsToSkipStart, numCellsToSkipEnd)\<close>.\<close>

definition GetPartReadInfo :: "vtkLSDynaPartCollection \<Rightarrow> int \<Rightarrow> int \<times> int \<times> int" where
  "GetPartReadInfo c partType =
     (let size' = MaxIds c partType - MinIds c partType in
      if size' \<le> 0 then (0, NumberOfCells c partType, 0)
      else (size', MinIds c partType,
            NumberOfCells c partType - (size' + MinIds c partType)))"

text \<open>
  The calls on the file family \<^verbatim>\<open>MetaData->Fam\<close>, each with the number of words it moves
  the file forward: \<^verbatim>\<open>SkipWords(n)\<close>, a \<^verbatim>\<open>GetNextChunk\<close> that returned a chunk of \<open>n\<close>
  words, and \<^verbatim>\<open>BufferChunk(Float, n)\<close>.
\<close>

datatype family_call = SkipWords int | GetNextChunk int | BufferChunk int

text \<open>
  Modelled from the spec: the file family (\<^verbatim>\<open>LSDynaFamily\<close>) is outside this file; a skip of
  \<open>n\<close> words and a chunk of \<open>n\<close> words each move the file position \<open>n\<close> words forward.
\<close>

fun words :: "family_call \<Rightarrow> int" where
  "words (SkipWords n) = n"
| "words (GetNextChunk n) = n"
| "words (BufferChunk n) = n"

definition file_advance :: "family_call list \<Rightarrow> int" where
  "file_advance fam = sum_list (map words fam)"

text \<open>
  The chunk loop of \<^verbatim>\<open>ReadCellUserIds\<close>. The family decides the number of chunks
  (\<^verbatim>\<open>InitPartialChunkBuffering\<close>) and the size and buffer of each (\<^verbatim>\<open>GetNextChunk\<close>,
  \<^verbatim>\<open>GetBufferAs\<close>): they are the list \<open>chunks\<close>. The two branches of the word size differ
  in the element type of the buffer only.
\<close>

fun ReadCellUserIds_loop ::
  "LSDynaPartStorage \<Rightarrow> int \<Rightarrow> int \<Rightarrow> (int \<times> (int \<Rightarrow> int)) list \<Rightarrow>
     family_call list \<times> part_call list \<times> LSDynaPartStorage" where
  "ReadCellUserIds_loop st type firstId [] = ([], [], st)"
| "ReadCellUserIds_loop st type firstId ((chunkSize, buf) # chunks) =
     (let numCellsInChunk = chunkSize;
          (calls, loc, st') = FillCellUserIdArray st buf type firstId numCellsInChunk;
          (fam, calls', st'') =
             ReadCellUserIds_loop st' type (firstId + numCellsInChunk) chunks
      in (GetNextChunk chunkSize # fam, calls @ calls', st''))"

definition ReadCellUserIds ::
  "vtkLSDynaPartCollection \<Rightarrow> int \<Rightarrow> int \<Rightarrow> int \<Rightarrow> (int \<times> (int \<Rightarrow> int)) list \<Rightarrow>
     family_call list \<times> part_call list \<times> LSDynaPartStorage" where
  "ReadCellUserIds c type status wordSize chunks =
     (case GetPartReadInfo c type of
        (nCells, numSkipStart, numSkipEnd) \<Rightarrow>
          if status = 0 then
            ([SkipWords (numSkipStart + nCells + numSkipEnd)], [], Storage c)
          else
            (case (if wordSize = 8 \<and> nCells > 0
                   then ReadCellUserIds_loop (Storage c) type 0 chunks
                   else if nCells > 0
                   then ReadCellUserIds_loop (Storage c) type 0 chunks
                   else ([], [], Storage c)) of
               (fam, calls, st) \<Rightarrow>
                 (SkipWords numSkipStart # fam @ [SkipWords numSkipEnd], calls, st)))"

subsection \<open>Point properties\<close>

definition sortPartsOnGlobalIds :: "vtkLSDynaPart \<Rightarrow> vtkLSDynaPart \<Rightarrow> bool" where
  "sortPartsOnGlobalIds p1 p2 =
     (if GetMinGlobalPointId p1 < GetMinGlobalPointId p2 then True
      else if GetMaxGlobalPointId p1 < GetMaxGlobalPointId p2 then True
      else False)"

text \<open>
  \<^verbatim>\<open>std::list::sort\<close> and \<^verbatim>\<open>std::list::merge\<close> belong to the C++ library. The merge takes
  the next element from the argument list when the comparison says it goes before the next
  element of the receiver, and from the receiver otherwise. The sort is the stable merge
  sort of the GNU library: each element in turn is carried through bins of doubling
  length, merging into every full bin on its way, and at the end the bins are merged from
  the smallest up. With a comparison that is a strict weak ordering every stable sort
  returns the same list.
\<close>

fun list_merge :: "('a \<Rightarrow> 'a \<Rightarrow> bool) \<Rightarrow> 'a list \<Rightarrow> 'a list \<Rightarrow> 'a list" where
  "list_merge cmp [] ys = ys"
| "list_merge cmp (x # xs) [] = x # xs"
| "list_merge cmp (x # xs) (y # ys) =
     (if cmp y x then y # list_merge cmp (x # xs) ys
      else x # list_merge cmp xs (y # ys))"

fun carry_into :: "('a \<Rightarrow> 'a \<Rightarrow> bool) \<Rightarrow> 'a list \<Rightarrow> 'a list list \<Rightarrow> 'a list list" where
  "carry_into cmp carry [] = [carry]"
| "carry_into cmp carry (bin # bins) =
     (if bin = [] then carry # bins
      else [] # carry_into cmp (list_merge cmp bin carry) bins)"

fun merge_bins :: "('a \<Rightarrow> 'a \<Rightarrow> bool) \<Rightarrow> 'a list \<Rightarrow> 'a list list \<Rightarrow> 'a list" where
  "merge_bins cmp acc [] = acc"
| "merge_bins cmp acc (bin # bins) = merge_bins cmp (list_merge cmp bin acc) bins"

definition list_sort :: "('a \<Rightarrow> 'a \<Rightarrow> bool) \<Rightarrow> 'a list \<Rightarrow> 'a list" where
  "list_sort cmp xs =
     (if length xs < 2 then xs
      else merge_bins cmp [] (fold (\<lambda>x bins. carry_into cmp [x] bins) xs []))"

text \<open>Division and remainder of C++: the quotient is rounded towards zero.\<close>

definition cdiv :: "int \<Rightarrow> int \<Rightarrow> int" where
  "cdiv a b = sgn a * sgn b * (\<bar>a\<bar> div \<bar>b\<bar>)"

definition cmod :: "int \<Rightarrow> int \<Rightarrow> int" where
  "cmod a b = a - b * cdiv a b"

definition numPointsToRead :: int where
  "numPointsToRead = 1048576"

text \<open>The first inner loop: parts at the front that end before the chunk are popped.\<close>

fun pop_filled :: "int \<Rightarrow> vtkLSDynaPart list \<Rightarrow> vtkLSDynaPart list" where
  "pop_filled offset [] = []"
| "pop_filled offset (p # ps) =
     (if GetMaxGlobalPointId p < offset then pop_filled offset ps else p # ps)"

text \<open>The second inner loop: the chunk goes to the parts from the front, up to the first
  one that starts after the chunk.\<close>

fun read_chunk :: "int \<Rightarrow> int \<Rightarrow> vtkLSDynaPart list \<Rightarrow> part_call list" where
  "read_chunk offset numComps [] = []"
| "read_chunk offset numComps (p # ps) =
     (if GetMinGlobalPointId p < offset + numPointsToRead
      then ReadPointBasedProperty p numPointsToRead numComps offset #
           read_chunk offset numComps ps
      else [])"

text \<open>The loop over the full chunks, with the number of iterations left.\<close>

fun ReadPointProperty_loop ::
  "nat \<Rightarrow> int \<Rightarrow> int \<Rightarrow> vtkLSDynaPart list \<Rightarrow>
     family_call list \<times> part_call list \<times> int \<times> vtkLSDynaPart list" where
  "ReadPointProperty_loop 0 offset numComps sortedParts = ([], [], offset, sortedParts)"
| "ReadPointProperty_loop (Suc k) offset numComps sortedParts =
     (let bufferChunkSize = numPointsToRead * numComps;
          remaining = pop_filled offset sortedParts;
          calls = read_chunk offset numComps remaining;
          (fam, calls', offset', sortedParts') =
             ReadPointProperty_loop k (offset + numPointsToRead) numComps remaining
      in (BufferChunk bufferChunkSize # fam, calls @ calls', offset', sortedParts'))"

text \<open>
  The template \<^verbatim>\<open>ReadPointProperty<T>\<close>, given the array of parts. On an empty array it
  reads the front of an empty list.
\<close>

definition ReadPointProperty ::
  "int \<Rightarrow> int \<Rightarrow> vtkLSDynaPart list \<Rightarrow> error + (family_call list \<times> part_call list)" where
  "ReadPointProperty numTuples numComps parts =
     (let sortedParts = list_sort sortPartsOnGlobalIds parts in
      if sortedParts = [] then Inl EmptyList
      else
        (let minGlobalPoint = GetMinGlobalPointId (hd sortedParts);
             maxGlobalPoint = GetMaxGlobalPointId (last sortedParts);
             realNumberOfTuples = maxGlobalPoint - minGlobalPoint;
             numPointsToSkipStart = minGlobalPoint;
             numPointsToSkipEnd = numTuples - (realNumberOfTuples + minGlobalPoint);
             loopTimes = cdiv realNumberOfTuples numPointsToRead;
             leftOver = cmod realNumberOfTuples numPointsToRead;
             (fam, calls, offset, remaining) =
                ReadPointProperty_loop (nat loopTimes) numPointsToSkipStart numComps sortedParts
         in Inr (SkipWords (numPointsToSkipStart * numComps) # fam @
                   [BufferChunk (leftOver * numComps), SkipWords (numPointsToSkipEnd * numComps)],
                 calls @ map (\<lambda>p. ReadPointBasedProperty p leftOver numComps offset) remaining)))"

section \<open>Notions used to state the properties\<close>

text \<open>
  A block list is contiguous from \<open>a\<close> when its first block starts at \<open>a\<close>, every block
  holds at least one cell and every block starts where the one before it ends.
\<close>

fun contiguous_from :: "int \<Rightarrow> PartInfo list \<Rightarrow> bool" where
  "contiguous_from a [] = True"
| "contiguous_from a (b # bs) =
     (startId b = a \<and> 1 \<le> numCells b \<and> contiguous_from (a + numCells b) bs)"

text \<open>
  The block that owns a global cell index, the call that forwards the cell with that index
  to the part of its block, and the state of an insertion cursor that stands at that index:
  inside a block, on the cell it will take next, or at the end of the vector when every
  cell has been taken.
\<close>

definition owner :: "PartInfo list \<Rightarrow> int \<Rightarrow> PartInfo option" where
  "owner bs k = find (\<lambda>b. startId b \<le> k \<and> k < startId b + numCells b) bs"

definition forwarded :: "PartInfo list \<Rightarrow> int \<Rightarrow> int \<times> int \<times> int list \<Rightarrow> part_call list" where
  "forwarded bs k cell =
     (case owner bs k of
        None \<Rightarrow> []
      | Some b \<Rightarrow>
          (case part b of
             None \<Rightarrow> []
           | Some p \<Rightarrow> [AddCell p (fst cell) (fst (snd cell)) (snd (snd cell))]))"

definition cursor_inv :: "PartInfo list \<Rightarrow> PartInsertion \<Rightarrow> int \<Rightarrow> bool" where
  "cursor_inv bs it k =
     (case pIt it of
        None \<Rightarrow> False
      | Some i \<Rightarrow>
          if i < length bs
          then 0 \<le> numCellsInserted it \<and> numCellsInserted it < numCells (bs ! i) \<and>
               k = startId (bs ! i) + numCellsInserted it
          else i = length bs \<and> numCellsInserted it = 0 \<and> k = sum_list (map numCells bs))"

text \<open>
  The block that the cursor of a part type points at before the call for cell \<open>n\<close> of an
  insertion pass: the position of the cursor after the first \<open>n\<close> calls.
\<close>

definition block_before ::
  "LSDynaPartStorage \<Rightarrow> int \<Rightarrow> (int \<times> int \<times> int list) list \<Rightarrow> nat \<Rightarrow> nat option" where
  "block_before st t cells n =
     (case InsertCells st t (take n cells) of
        Inl e \<Rightarrow> None
      | Inr (calls, st') \<Rightarrow> pIt (CellInsertionIterators st' t))"

text \<open>
  The number of cells that a window of \<open>nCells\<close> cells from \<open>firstId\<close> shares with a
  block, the number of cells a \<^verbatim>\<open>ReadCellProperties\<close> call hands over, and the calls that
  hand every part the share of each of its blocks, each at the buffer position that the
  shares of the blocks before it add up to.
\<close>

definition overlap :: "int \<Rightarrow> int \<Rightarrow> PartInfo \<Rightarrow> int" where
  "overlap firstId nCells b =
     int (card ({firstId ..< firstId + nCells} \<inter> {startId b ..< startId b + numCells b}))"

fun cells_read :: "part_call \<Rightarrow> int" where
  "cells_read (ReadCellProperties q loc n k) = n"
| "cells_read c = 0"

fun clipped :: "int \<Rightarrow> int \<Rightarrow> int \<Rightarrow> int \<Rightarrow> PartInfo list \<Rightarrow> part_call list" where
  "clipped firstId nCells k loc [] = []"
| "clipped firstId nCells k loc (b # bs) =
     (case part b of
        None \<Rightarrow> []
      | Some q \<Rightarrow>
          if overlap firstId nCells b = 0 then []
          else [ReadCellProperties q loc (overlap firstId nCells b) k]) @
     clipped firstId nCells k (loc + overlap firstId nCells b * k) bs"

text \<open>The order of two parts by the first global point id they use.\<close>

definition by_min :: "vtkLSDynaPart \<Rightarrow> vtkLSDynaPart \<Rightarrow> bool" where
  "by_min a b = (GetMinGlobalPointId a \<le> GetMinGlobalPointId b)"

text \<open>
  Three parts, a storage whose second slot is empty (a part the user turned off), and a
  registration pass over six cells of part type 2 and one cell of part type 4.
\<close>

definition front_part :: vtkLSDynaPart where
  "front_part = \<lparr>GetPartId = 0, GetMinGlobalPointId = 0, GetMaxGlobalPointId = 10\<rparr>"

definition wide_part :: vtkLSDynaPart where
  "wide_part = \<lparr>GetPartId = 1, GetMinGlobalPointId = 5, GetMaxGlobalPointId = 5242880\<rparr>"

definition late_part :: vtkLSDynaPart where
  "late_part = \<lparr>GetPartId = 2, GetMinGlobalPointId = 2097152, GetMaxGlobalPointId = 3145728\<rparr>"

definition demo_storage :: LSDynaPartStorage where
  "demo_storage = (LSDynaPartStorage_new 3)\<lparr>Parts := [Some front_part, None, Some late_part]\<rparr>"

definition demo_cells :: "(int \<times> int \<times> int) list" where
  "demo_cells = [(2, 0, 4), (2, 0, 4), (2, 1, 3), (2, 2, 4), (2, 2, 4), (2, 2, 4), (4, 1, 8)]"

definition demo_blocks :: "PartInfo list" where
  "demo_blocks =
     [\<lparr>numCells = 2, startId = 0, cellStructureSize = 8, partId = 0, part = Some front_part\<rparr>,
      \<lparr>numCells = 1, startId = 2, cellStructureSize = 3, partId = 1, part = None\<rparr>,
      \<lparr>numCells = 3, startId = 3, cellStructureSize = 12, partId = 2, part = Some late_part\<rparr>]"

text \<open>
  The six cells of part type 2 as the insertion pass hands them over, and a collection that
  reads the cells 2 to 6 of the ten cells of every type.
\<close>

definition demo_conn :: "(int \<times> int \<times> int list) list" where
  "demo_conn = [(9, 4, [0, 1, 2, 3]), (9, 4, [2, 3, 4, 5]), (5, 3, [4, 5, 6]),
                (9, 4, [6, 7, 8, 9]), (9, 4, [8, 9, 10, 11]), (9, 4, [10, 11, 12, 13])]"

definition demo_collection :: vtkLSDynaPartCollection where
  "demo_collection =
     \<lparr>NumberOfCells = (\<lambda>_. 10), MinIds = (\<lambda>_. 2), MaxIds = (\<lambda>_. 7),
      Storage = demo_storage\<rparr>"

section \<open>The cell to part index\<close>

subsection \<open>One registration\<close>

lemma demo_empty: "Info demo_storage t = []"
  by (simp add: demo_storage_def LSDynaPartStorage_new_def)

lemma demo_constructed:
  "(case ConstructPart (LSDynaPartStorage_new 3) 0 front_part of
      Inl e \<Rightarrow> Inl e
    | Inr st \<Rightarrow> ConstructPart st 2 late_part) = Inr demo_storage"
  by (simp add: ConstructPart_def LSDynaPartStorage_new_def demo_storage_def eval_nat_numeral)

lemma demo_registered:
  "\<exists>st. RegisterCells demo_storage demo_cells = Inr st \<and> Info st 2 = demo_blocks"
  by (simp add: demo_cells_def demo_storage_def demo_blocks_def LSDynaPartStorage_new_def
        RegisterCell_def Parts_at_def PartInfo_new_def Let_def)

lemma contiguous_from_snoc:
  "contiguous_from a (bs @ [b]) =
     (contiguous_from a bs \<and> startId b = a + sum_list (map numCells bs) \<and> 1 \<le> numCells b)"
  by (induction bs arbitrary: a) (auto simp: algebra_simps)

lemma contiguous_from_last:
  "contiguous_from a bs \<Longrightarrow> bs \<noteq> [] \<Longrightarrow>
     startId (last bs) + numCells (last bs) = a + sum_list (map numCells bs)"
  by (induction bs arbitrary: a) (auto simp: algebra_simps)

lemma RegisterCell_cases:
  assumes "RegisterCell st t m n = Inr st'"
  shows "(Info st t \<noteq> [] \<and> partId (last (Info st t)) = m \<and>
          Info st' t = butlast (Info st t) @
            [(last (Info st t))\<lparr>numCells := numCells (last (Info st t)) + 1,
               cellStructureSize := cellStructureSize (last (Info st t)) + n\<rparr>]) \<or>
         (\<not> (Info st t \<noteq> [] \<and> partId (last (Info st t)) = m) \<and>
          (\<exists>p. Parts_at st m = Inr p \<and>
             Info st' t = Info st t @
               [PartInfo_new p m
                  (if Info st t = [] then 0
                   else startId (last (Info st t)) + numCells (last (Info st t))) n]))"
  using assms
  by (auto simp: RegisterCell_def Let_def split: if_splits sum.splits)

lemma RegisterCell_Info_other:
  "RegisterCell st t m n = Inr st' \<Longrightarrow> t' \<noteq> t \<Longrightarrow> Info st' t' = Info st t'"
  by (auto simp: RegisterCell_def Let_def split: if_splits sum.splits)

lemma RegisterCell_Parts:
  "RegisterCell st t m n = Inr st' \<Longrightarrow> Parts st' = Parts st"
  by (auto simp: RegisterCell_def Let_def split: if_splits sum.splits)

text \<open>A registration with material indices inside the part array reads no slot outside it.\<close>

lemma RegisterCell_defined:
  "0 \<le> m \<Longrightarrow> m < int (length (Parts st)) \<Longrightarrow>
   \<exists>st'. RegisterCell st t m n = Inr st' \<and> Parts st' = Parts st"
  by (auto simp: RegisterCell_def Parts_at_def Let_def)

lemma RegisterCells_defined:
  "(\<And>t m n. (t, m, n) \<in> set calls \<Longrightarrow> 0 \<le> m \<and> m < int (length (Parts st))) \<Longrightarrow>
   \<exists>st'. RegisterCells st calls = Inr st'"
proof (induction calls arbitrary: st)
  case Nil
  then show ?case by simp
next
  case (Cons c calls)
  obtain t m n where c: "c = (t, m, n)" by (cases c)
  with Cons.prems [of t m n] have "0 \<le> m \<and> m < int (length (Parts st))" by simp
  with RegisterCell_defined [of m st t n] obtain st1 where
    s1: "RegisterCell st t m n = Inr st1" and p: "Parts st1 = Parts st" by blast
  have "\<exists>st'. RegisterCells st1 calls = Inr st'"
  proof (rule Cons.IH)
    fix t' m' n' assume "(t', m', n') \<in> set calls"
    then have "(t', m', n') \<in> set (c # calls)" by simp
    from Cons.prems [OF this] show "0 \<le> m' \<and> m' < int (length (Parts st1))"
      by (simp add: p)
  qed
  with s1 show ?case by (simp add: c)
qed

text \<open>
  C5. A call \<^verbatim>\<open>RegisterCell(partType, matId, npts)\<close> on a type whose last block belongs to
  \<open>matId\<close> adds no block: the last block gains one cell and \<open>npts\<close> words of cell
  structure, and the blocks before it stay as they are. Any other call, with \<open>matId\<close> a slot
  of the part array, appends one block of one cell and \<open>npts\<close> words for \<open>matId\<close>, which
  starts where the last block ended, or at 0 when there was no block.
\<close>

theorem RegisterCell_step:
  "(Info st t \<noteq> [] \<and> partId (last (Info st t)) = m \<longrightarrow>
      (\<exists>st'. RegisterCell st t m n = Inr st' \<and>
         length (Info st' t) = length (Info st t) \<and>
         butlast (Info st' t) = butlast (Info st t) \<and>
         last (Info st' t) =
           (last (Info st t))\<lparr>numCells := numCells (last (Info st t)) + 1,
              cellStructureSize := cellStructureSize (last (Info st t)) + n\<rparr>)) \<and>
   (\<not> (Info st t \<noteq> [] \<and> partId (last (Info st t)) = m) \<and>
    0 \<le> m \<and> m < int (length (Parts st)) \<longrightarrow>
      (\<exists>st'. RegisterCell st t m n = Inr st' \<and>
         Info st' t = Info st t @
           [\<lparr>numCells = 1,
             startId = (if Info st t = [] then 0
                        else startId (last (Info st t)) + numCells (last (Info st t))),
             cellStructureSize = n, partId = m, part = Parts st ! nat m\<rparr>]))"
  by (auto simp: RegisterCell_def Let_def Parts_at_def PartInfo_new_def)

theorem RegisterCell_step_witness:
  "(\<exists>st'. RegisterCell demo_storage 2 0 4 = Inr st' \<and>
      Info st' 2 = [\<lparr>numCells = 1, startId = 0, cellStructureSize = 4, partId = 0,
                       part = Some front_part\<rparr>]) \<and>
   (\<exists>st'. RegisterCell (demo_storage\<lparr>Info := (\<lambda>_. demo_blocks)\<rparr>) 2 2 4 = Inr st' \<and>
      length (Info st' 2) = 3 \<and> numCells (last (Info st' 2)) = 4 \<and>
      cellStructureSize (last (Info st' 2)) = 16)"
proof -
  have a: "\<not> (Info demo_storage 2 \<noteq> [] \<and> partId (last (Info demo_storage 2)) = 0) \<and>
           (0::int) \<le> 0 \<and> 0 < int (length (Parts demo_storage))"
    by (simp add: demo_storage_def LSDynaPartStorage_new_def)
  let ?st = "demo_storage\<lparr>Info := (\<lambda>_. demo_blocks)\<rparr>"
  have b: "Info ?st 2 \<noteq> [] \<and> partId (last (Info ?st 2)) = 2"
    by (simp add: demo_blocks_def)
  from RegisterCell_step [of demo_storage 2 0 4] a
  have 1: "\<exists>st'. RegisterCell demo_storage 2 0 4 = Inr st' \<and>
      Info st' 2 = [\<lparr>numCells = 1, startId = 0, cellStructureSize = 4, partId = 0,
                       part = Some front_part\<rparr>]"
    by (simp add: demo_storage_def LSDynaPartStorage_new_def)
  from RegisterCell_step [of ?st 2 2 4] b
  have 2: "\<exists>st'. RegisterCell ?st 2 2 4 = Inr st' \<and>
      length (Info st' 2) = 3 \<and> numCells (last (Info st' 2)) = 4 \<and>
      cellStructureSize (last (Info st' 2)) = 16"
    by (auto simp: demo_blocks_def)
  from 1 2 show ?thesis by blast
qed

subsection \<open>The invariant of the index\<close>

lemma RegisterCell_contiguous:
  assumes "RegisterCell st t m n = Inr st'" and "contiguous_from 0 (Info st t')"
  shows "contiguous_from 0 (Info st' t')"
proof (cases "t' = t")
  case False
  with assms show ?thesis by (simp add: RegisterCell_Info_other)
next
  case True
  let ?bs = "Info st t"
  from assms(2) True have c: "contiguous_from 0 ?bs" by simp
  from RegisterCell_cases [OF assms(1)] show ?thesis
  proof (elim disjE conjE exE)
    assume ne: "?bs \<noteq> []"
      and eq: "Info st' t = butlast ?bs @
         [(last ?bs)\<lparr>numCells := numCells (last ?bs) + 1,
            cellStructureSize := cellStructureSize (last ?bs) + n\<rparr>]"
    from ne have split: "?bs = butlast ?bs @ [last ?bs]" by simp
    from c have "contiguous_from 0 (butlast ?bs @ [last ?bs])" using split by simp
    then show ?thesis
      unfolding True eq contiguous_from_snoc by simp
  next
    fix p
    assume eq: "Info st' t = ?bs @ [PartInfo_new p m
        (if ?bs = [] then 0 else startId (last ?bs) + numCells (last ?bs)) n]"
    show ?thesis
      unfolding True eq contiguous_from_snoc
      using c contiguous_from_last [OF c]
      by (auto simp: PartInfo_new_def)
  qed
qed

lemma RegisterCell_sum:
  assumes "RegisterCell st t m n = Inr st'"
  shows "sum_list (map numCells (Info st' t')) =
         sum_list (map numCells (Info st t')) + (if t' = t then 1 else 0)"
proof (cases "t' = t")
  case False
  with assms show ?thesis by (simp add: RegisterCell_Info_other)
next
  case True
  let ?bs = "Info st t"
  from RegisterCell_cases [OF assms(1)] show ?thesis
  proof (elim disjE conjE exE)
    assume ne: "?bs \<noteq> []"
      and eq: "Info st' t = butlast ?bs @
         [(last ?bs)\<lparr>numCells := numCells (last ?bs) + 1,
            cellStructureSize := cellStructureSize (last ?bs) + n\<rparr>]"
    from ne have split: "?bs = butlast ?bs @ [last ?bs]" by simp
    have "sum_list (map numCells ?bs) =
          sum_list (map numCells (butlast ?bs)) + numCells (last ?bs)"
      by (subst split) simp
    then show ?thesis unfolding True eq by simp
  next
    fix p
    assume eq: "Info st' t = ?bs @ [PartInfo_new p m
        (if ?bs = [] then 0 else startId (last ?bs) + numCells (last ?bs)) n]"
    show ?thesis unfolding True eq by (simp add: PartInfo_new_def)
  qed
qed

lemma RegisterCells_contiguous:
  "RegisterCells st calls = Inr st' \<Longrightarrow> contiguous_from 0 (Info st t) \<Longrightarrow>
   contiguous_from 0 (Info st' t)"
proof (induction calls arbitrary: st)
  case Nil
  then show ?case by simp
next
  case (Cons c calls)
  obtain ct cm cn where c: "c = (ct, cm, cn)" by (cases c)
  from Cons.prems(1) obtain st1 where
    s1: "RegisterCell st ct cm cn = Inr st1" and s2: "RegisterCells st1 calls = Inr st'"
    by (auto simp: c split: sum.splits)
  from RegisterCell_contiguous [OF s1 Cons.prems(2)] Cons.IH [OF s2] show ?case by simp
qed

lemma RegisterCells_sum:
  "RegisterCells st calls = Inr st' \<Longrightarrow>
   sum_list (map numCells (Info st' t)) =
     sum_list (map numCells (Info st t)) +
     int (length (filter (\<lambda>(t', m', n'). t' = t) calls))"
proof (induction calls arbitrary: st)
  case Nil
  then show ?case by simp
next
  case (Cons c calls)
  obtain ct cm cn where c: "c = (ct, cm, cn)" by (cases c)
  from Cons.prems(1) obtain st1 where
    s1: "RegisterCell st ct cm cn = Inr st1" and s2: "RegisterCells st1 calls = Inr st'"
    by (auto simp: c split: sum.splits)
  from RegisterCell_sum [OF s1, of t] Cons.IH [OF s2] show ?case by (simp add: c)
qed

lemma contiguous_from_pos:
  "contiguous_from a bs \<Longrightarrow> b \<in> set bs \<Longrightarrow> 1 \<le> numCells b"
  by (induction bs arbitrary: a) auto

lemma contiguous_from_append:
  "contiguous_from a (xs @ ys) =
     (contiguous_from a xs \<and> contiguous_from (a + sum_list (map numCells xs)) ys)"
  by (induction xs arbitrary: a) (auto simp: algebra_simps)

lemma contiguous_from_sum_nonneg:
  "contiguous_from a bs \<Longrightarrow> 0 \<le> sum_list (map numCells bs)"
  by (induction bs arbitrary: a) (auto intro: add_nonneg_nonneg)

lemma contiguous_from_start_ge:
  "contiguous_from a bs \<Longrightarrow> b \<in> set bs \<Longrightarrow> a \<le> startId b"
proof (induction bs arbitrary: a)
  case Nil
  then show ?case by simp
next
  case (Cons x bs)
  then show ?case by fastforce
qed

lemma contiguous_from_nth:
  "contiguous_from a bs \<Longrightarrow> i < length bs \<Longrightarrow>
     startId (bs ! i) = a + sum_list (map numCells (take i bs))"
proof (induction bs arbitrary: a i)
  case Nil
  then show ?case by simp
next
  case (Cons b bs)
  then show ?case by (cases i) (auto simp: algebra_simps)
qed

lemma contiguous_from_take_mono:
  assumes "contiguous_from a bs" and "i \<le> j"
  shows "sum_list (map numCells (take i bs)) \<le> sum_list (map numCells (take j bs))"
proof -
  have "take j bs = take i bs @ take (j - i) (drop i bs)"
    using assms(2) by (metis le_add_diff_inverse take_add)
  moreover have "0 \<le> sum_list (map numCells (take (j - i) (drop i bs)))"
  proof (rule sum_list_nonneg)
    fix x assume "x \<in> set (map numCells (take (j - i) (drop i bs)))"
    then obtain b where "b \<in> set bs" and "x = numCells b"
      by (auto dest!: in_set_takeD in_set_dropD)
    with contiguous_from_pos [OF assms(1)] show "0 \<le> x" by fastforce
  qed
  ultimately show ?thesis by simp
qed

lemma contiguous_from_Suc:
  assumes "contiguous_from a bs" and "Suc i < length bs"
  shows "startId (bs ! Suc i) = startId (bs ! i) + numCells (bs ! i)"
proof -
  from assms(2) have "take (Suc i) bs = take i bs @ [bs ! i]"
    by (simp add: take_Suc_conv_app_nth)
  with contiguous_from_nth [OF assms(1), of "Suc i"] contiguous_from_nth [OF assms(1), of i]
    assms(2)
  show ?thesis by simp
qed

lemma contiguous_from_before:
  assumes "contiguous_from a bs" and "i < j" and "j < length bs"
  shows "startId (bs ! i) + numCells (bs ! i) \<le> startId (bs ! j)"
proof -
  from assms have "take (Suc i) bs = take i bs @ [bs ! i]"
    by (simp add: take_Suc_conv_app_nth)
  then have "startId (bs ! i) + numCells (bs ! i) = a + sum_list (map numCells (take (Suc i) bs))"
    using contiguous_from_nth [OF assms(1), of i] assms by simp
  also have "\<dots> \<le> a + sum_list (map numCells (take j bs))"
    using contiguous_from_take_mono [OF assms(1), of "Suc i" j] assms(2) by simp
  also have "\<dots> = startId (bs ! j)"
    using contiguous_from_nth [OF assms(1) assms(3)] by simp
  finally show ?thesis .
qed

text \<open>
  C3. After any sequence of \<^verbatim>\<open>RegisterCell\<close> calls on a storage that had no block of type
  \<open>t\<close>, the blocks of type \<open>t\<close> start at 0, each block starts where the one before it
  ends, the start ids increase strictly and no two blocks overlap, and the cell counts of
  the blocks add up to the number of calls made for type \<open>t\<close>.
\<close>

theorem RegisterCell_index_invariant:
  assumes "RegisterCells st0 calls = Inr st" and "Info st0 t = []"
  shows "(Info st t \<noteq> [] \<longrightarrow> startId (hd (Info st t)) = 0) \<and>
         (\<forall>i. Suc i < length (Info st t) \<longrightarrow>
            startId (Info st t ! Suc i) = startId (Info st t ! i) + numCells (Info st t ! i)) \<and>
         (\<forall>i j. i < j \<and> j < length (Info st t) \<longrightarrow>
            startId (Info st t ! i) < startId (Info st t ! j) \<and>
            startId (Info st t ! i) + numCells (Info st t ! i) \<le> startId (Info st t ! j)) \<and>
         sum_list (map numCells (Info st t)) =
           int (length (filter (\<lambda>(t', m, n). t' = t) calls))"
proof -
  let ?bs = "Info st t"
  have c: "contiguous_from 0 ?bs"
    using RegisterCells_contiguous [OF assms(1), of t] assms(2) by simp
  have first: "?bs \<noteq> [] \<longrightarrow> startId (hd ?bs) = 0"
    using c by (cases ?bs) auto
  have nxt: "\<forall>i. Suc i < length ?bs \<longrightarrow>
      startId (?bs ! Suc i) = startId (?bs ! i) + numCells (?bs ! i)"
    using contiguous_from_Suc [OF c] by blast
  have apart: "\<forall>i j. i < j \<and> j < length ?bs \<longrightarrow>
      startId (?bs ! i) < startId (?bs ! j) \<and>
      startId (?bs ! i) + numCells (?bs ! i) \<le> startId (?bs ! j)"
  proof (intro allI impI)
    fix i j assume ij: "i < j \<and> j < length ?bs"
    then have le: "startId (?bs ! i) + numCells (?bs ! i) \<le> startId (?bs ! j)"
      using contiguous_from_before [OF c] by blast
    from ij have "?bs ! i \<in> set ?bs" by simp
    then have "1 \<le> numCells (?bs ! i)" using contiguous_from_pos [OF c] by blast
    with le show "startId (?bs ! i) < startId (?bs ! j) \<and>
      startId (?bs ! i) + numCells (?bs ! i) \<le> startId (?bs ! j)" by simp
  qed
  have total: "sum_list (map numCells ?bs) = int (length (filter (\<lambda>(t', m, n). t' = t) calls))"
    using RegisterCells_sum [OF assms(1), of t] assms(2) by simp
  from first nxt apart total show ?thesis by blast
qed

theorem RegisterCell_index_invariant_witness:
  "\<exists>st. RegisterCells demo_storage demo_cells = Inr st \<and> Info demo_storage 2 = [] \<and>
     Info st 2 = demo_blocks \<and>
     startId (hd (Info st 2)) = 0 \<and>
     startId (Info st 2 ! 2) = startId (Info st 2 ! 1) + numCells (Info st 2 ! 1) \<and>
     startId (Info st 2 ! 0) + numCells (Info st 2 ! 0) \<le> startId (Info st 2 ! 2) \<and>
     sum_list (map numCells (Info st 2)) = 6"
proof -
  from demo_registered obtain st where
    st: "RegisterCells demo_storage demo_cells = Inr st" and bs: "Info st 2 = demo_blocks"
    by blast
  have len: "length (Info st 2) = 3" "Info st 2 \<noteq> []" by (simp_all add: bs demo_blocks_def)
  from RegisterCell_index_invariant [OF st demo_empty, of 2]
  have h: "startId (hd (Info st 2)) = 0"
    and n: "\<forall>i. Suc i < length (Info st 2) \<longrightarrow>
            startId (Info st 2 ! Suc i) = startId (Info st 2 ! i) + numCells (Info st 2 ! i)"
    and a: "\<forall>i j. i < j \<and> j < length (Info st 2) \<longrightarrow>
            startId (Info st 2 ! i) < startId (Info st 2 ! j) \<and>
            startId (Info st 2 ! i) + numCells (Info st 2 ! i) \<le> startId (Info st 2 ! j)"
    and t: "sum_list (map numCells (Info st 2)) =
            int (length (filter (\<lambda>(t', m, n). t' = 2) demo_cells))"
    using len by blast+
  from n [rule_format, of 1] len
  have n1: "startId (Info st 2 ! 2) = startId (Info st 2 ! 1) + numCells (Info st 2 ! 1)"
    by (simp add: numeral_2_eq_2)
  from a [rule_format, of 0 2] len
  have a1: "startId (Info st 2 ! 0) + numCells (Info st 2 ! 0) \<le> startId (Info st 2 ! 2)"
    by simp
  from t have t1: "sum_list (map numCells (Info st 2)) = 6" by (simp add: demo_cells_def)
  from st demo_empty bs h n1 a1 t1 show ?thesis by blast
qed

subsection \<open>Memory sizes of a part\<close>

lemma fold_sizes:
  "fold (\<lambda>info (n, len).
           if partId info = m
           then (n + numCells info, len + cellStructureSize info)
           else (n, len)) bs (a, c) =
   (a + sum_list (map numCells (filter (\<lambda>b. partId b = m) bs)),
    c + sum_list (map cellStructureSize (filter (\<lambda>b. partId b = m) bs)))"
  by (induction bs arbitrary: a c) auto

lemma GetMemorySizesForPart_sums:
  "GetMemorySizesForPart st t m =
     (sum_list (map numCells (filter (\<lambda>b. partId b = m) (Info st t))),
      sum_list (map cellStructureSize (filter (\<lambda>b. partId b = m) (Info st t))))"
  by (simp add: GetMemorySizesForPart_def fold_sizes)

lemma RegisterCell_sizes:
  assumes "RegisterCell st t0 m0 n0 = Inr st'"
  shows "GetMemorySizesForPart st' t m =
         (fst (GetMemorySizesForPart st t m) + (if t = t0 \<and> m = m0 then 1 else 0),
          snd (GetMemorySizesForPart st t m) + (if t = t0 \<and> m = m0 then n0 else 0))"
proof (cases "t = t0")
  case False
  with assms show ?thesis
    by (simp add: GetMemorySizesForPart_sums RegisterCell_Info_other)
next
  case True
  let ?bs = "Info st t0"
  from RegisterCell_cases [OF assms(1)] show ?thesis
  proof (elim disjE conjE exE)
    assume ne: "?bs \<noteq> []" and pm: "partId (last ?bs) = m0"
      and eq: "Info st' t0 = butlast ?bs @
         [(last ?bs)\<lparr>numCells := numCells (last ?bs) + 1,
            cellStructureSize := cellStructureSize (last ?bs) + n0\<rparr>]"
    from ne have split: "?bs = butlast ?bs @ [last ?bs]" by simp
    have "GetMemorySizesForPart st t0 m =
       (sum_list (map numCells (filter (\<lambda>b. partId b = m) (butlast ?bs @ [last ?bs]))),
        sum_list (map cellStructureSize (filter (\<lambda>b. partId b = m) (butlast ?bs @ [last ?bs]))))"
      unfolding GetMemorySizesForPart_sums using split by simp
    then show ?thesis
      unfolding True GetMemorySizesForPart_sums [of st'] eq using pm by auto
  next
    fix p
    assume eq: "Info st' t0 = ?bs @ [PartInfo_new p m0
        (if ?bs = [] then 0 else startId (last ?bs) + numCells (last ?bs)) n0]"
    show ?thesis
      unfolding True GetMemorySizesForPart_sums eq by (simp add: PartInfo_new_def)
  qed
qed

text \<open>
  C6. After any sequence of \<^verbatim>\<open>RegisterCell\<close> calls on a storage that had no block of type
  \<open>t\<close>, \<^verbatim>\<open>GetMemorySizesForPart(t, m)\<close> returns the number of calls made with type \<open>t\<close>
  and material \<open>m\<close>, and the sum of the point counts of those calls.
\<close>

theorem GetMemorySizesForPart_counts:
  assumes "RegisterCells st0 calls = Inr st" and "Info st0 t = []"
  shows "GetMemorySizesForPart st t m =
           (int (length (filter (\<lambda>(t', m', n'). t' = t \<and> m' = m) calls)),
            sum_list (map (\<lambda>(t', m', n'). n')
                        (filter (\<lambda>(t', m', n'). t' = t \<and> m' = m) calls)))"
proof -
  have gen: "RegisterCells s calls = Inr st \<Longrightarrow>
        GetMemorySizesForPart st t m =
           (fst (GetMemorySizesForPart s t m) +
              int (length (filter (\<lambda>(t', m', n'). t' = t \<and> m' = m) calls)),
            snd (GetMemorySizesForPart s t m) +
              sum_list (map (\<lambda>(t', m', n'). n')
                        (filter (\<lambda>(t', m', n'). t' = t \<and> m' = m) calls)))" for s
  proof (induction calls arbitrary: s)
    case Nil
    then show ?case by simp
  next
    case (Cons c calls)
    obtain ct cm cn where c: "c = (ct, cm, cn)" by (cases c)
    from Cons.prems obtain s1 where
      s1: "RegisterCell s ct cm cn = Inr s1" and s2: "RegisterCells s1 calls = Inr st"
      by (auto simp: c split: sum.splits)
    from Cons.IH [OF s2] RegisterCell_sizes [OF s1, of t m] show ?case
      by (auto simp: c)
  qed
  have "GetMemorySizesForPart st0 t m = (0, 0)"
    using assms(2) by (simp add: GetMemorySizesForPart_def)
  with gen [OF assms(1)] show ?thesis by simp
qed

theorem GetMemorySizesForPart_counts_witness:
  "\<exists>st. RegisterCells demo_storage demo_cells = Inr st \<and> Info demo_storage 2 = [] \<and>
     GetMemorySizesForPart st 2 0 = (2, 8) \<and> GetMemorySizesForPart st 2 2 = (3, 12)"
proof -
  from demo_registered obtain st where
    st: "RegisterCells demo_storage demo_cells = Inr st" by blast
  from GetMemorySizesForPart_counts [OF st demo_empty, of 0]
    GetMemorySizesForPart_counts [OF st demo_empty, of 2]
  have "GetMemorySizesForPart st 2 0 = (2, 8)" "GetMemorySizesForPart st 2 2 = (3, 12)"
    by (simp_all add: demo_cells_def)
  with st demo_empty show ?thesis by blast
qed

section \<open>The insertion cursor\<close>

lemma owner_nth:
  assumes c: "contiguous_from a bs" and i: "i < length bs"
    and k: "startId (bs ! i) \<le> k" "k < startId (bs ! i) + numCells (bs ! i)"
  shows "owner bs k = Some (bs ! i)"
proof -
  have "\<not> (startId (bs ! j) \<le> k \<and> k < startId (bs ! j) + numCells (bs ! j))" if "j < i" for j
    using contiguous_from_before [OF c that i] k by simp
  then show ?thesis
    unfolding owner_def find_Some_iff using i k by blast
qed

lemma contiguous_from_total:
  assumes "contiguous_from a bs" and "i < length bs"
  shows "startId (bs ! i) + numCells (bs ! i) \<le> a + sum_list (map numCells bs)"
proof -
  have "take (Suc i) bs = take i bs @ [bs ! i]"
    using assms(2) by (simp add: take_Suc_conv_app_nth)
  then have "startId (bs ! i) + numCells (bs ! i) = a + sum_list (map numCells (take (Suc i) bs))"
    using contiguous_from_nth [OF assms] by simp
  also have "\<dots> \<le> a + sum_list (map numCells (take (length bs) bs))"
    using contiguous_from_take_mono [OF assms(1), of "Suc i" "length bs"] assms(2) by simp
  finally show ?thesis by simp
qed

lemma InsertCell_step:
  assumes c: "contiguous_from 0 (Info st t)"
    and inv: "cursor_inv (Info st t) (CellInsertionIterators st t) k"
    and k: "k < sum_list (map numCells (Info st t))"
  shows "\<exists>st'. InsertCell st t ct np conn = Inr (forwarded (Info st t) k (ct, np, conn), st') \<and>
           Info st' = Info st \<and>
           cursor_inv (Info st t) (CellInsertionIterators st' t) (k + 1)"
proof -
  let ?bs = "Info st t" and ?it = "CellInsertionIterators st t"
  from inv obtain i where pit: "pIt ?it = Some i"
    by (auto simp: cursor_inv_def split: option.splits)
  from inv pit k have i: "i < length ?bs"
    by (auto simp: cursor_inv_def split: if_splits)
  with inv pit have j: "0 \<le> numCellsInserted ?it" "numCellsInserted ?it < numCells (?bs ! i)"
    and keq: "k = startId (?bs ! i) + numCellsInserted ?it"
    by (auto simp: cursor_inv_def)
  have own: "owner ?bs k = Some (?bs ! i)"
    using owner_nth [OF c i] j keq by simp
  have fwd: "forwarded ?bs k (ct, np, conn) =
      (case part (?bs ! i) of Some p \<Rightarrow> [AddCell p ct np conn] | None \<Rightarrow> [])"
    by (simp add: forwarded_def own split: option.splits)
  show ?thesis
  proof (cases "numCells (?bs ! i) = numCellsInserted ?it + 1")
    case True
    have nxt: "cursor_inv ?bs \<lparr>pIt = Some (Suc i), numCellsInserted = 0\<rparr> (k + 1)"
    proof (cases "Suc i < length ?bs")
      case True
      from contiguous_from_Suc [OF c True] contiguous_from_pos [OF c, of "?bs ! Suc i"] True
        \<open>numCells (?bs ! i) = numCellsInserted ?it + 1\<close> keq
      show ?thesis by (simp add: cursor_inv_def)
    next
      case False
      with i have last_i: "Suc i = length ?bs" by simp
      have "?bs \<noteq> []" using i by auto
      then have "last ?bs = ?bs ! (length ?bs - 1)" by (rule last_conv_nth)
      with last_i have "?bs ! i = last ?bs" by (metis diff_Suc_1)
      with contiguous_from_last [OF c \<open>?bs \<noteq> []\<close>]
      have "startId (?bs ! i) + numCells (?bs ! i) = sum_list (map numCells ?bs)" by simp
      with last_i True keq show ?thesis by (simp add: cursor_inv_def)
    qed
    with True pit i fwd show ?thesis
      by (simp add: InsertCell_def PartInsertion_inc_def Let_def)
  next
    case False
    with j keq pit i have "cursor_inv ?bs (?it\<lparr>numCellsInserted := numCellsInserted ?it + 1\<rparr>) (k + 1)"
      by (simp add: cursor_inv_def)
    with False pit i fwd show ?thesis
      by (simp add: InsertCell_def PartInsertion_inc_def Let_def)
  qed
qed

lemma InsertCells_run:
  assumes "contiguous_from 0 (Info st t)"
    and "cursor_inv (Info st t) (CellInsertionIterators st t) k"
    and "k + int (length cells) \<le> sum_list (map numCells (Info st t))"
  shows "\<exists>st'. InsertCells st t cells =
             Inr (concat (map (\<lambda>n. forwarded (Info st t) (k + int n) (cells ! n))
                            [0..<length cells]), st') \<and>
           Info st' = Info st \<and>
           cursor_inv (Info st t) (CellInsertionIterators st' t) (k + int (length cells))"
  using assms
proof (induction cells arbitrary: st k)
  case Nil
  then show ?case by simp
next
  case (Cons cell cells)
  obtain ct np conn where cell: "cell = (ct, np, conn)" by (cases cell)
  from Cons.prems(3) have k: "k < sum_list (map numCells (Info st t))" by simp
  from InsertCell_step [OF Cons.prems(1,2) k, of ct np conn] obtain st1 where
    s1: "InsertCell st t ct np conn = Inr (forwarded (Info st t) k (ct, np, conn), st1)"
    and info1: "Info st1 = Info st"
    and inv1: "cursor_inv (Info st t) (CellInsertionIterators st1 t) (k + 1)"
    by blast
  have "\<exists>st'. InsertCells st1 t cells =
             Inr (concat (map (\<lambda>n. forwarded (Info st1 t) (k + 1 + int n) (cells ! n))
                            [0..<length cells]), st') \<and>
           Info st' = Info st1 \<and>
           cursor_inv (Info st1 t) (CellInsertionIterators st' t) (k + 1 + int (length cells))"
    using Cons.prems inv1 by (intro Cons.IH) (simp_all add: info1)
  then obtain st2 where
    s2: "InsertCells st1 t cells =
             Inr (concat (map (\<lambda>n. forwarded (Info st t) (k + 1 + int n) (cells ! n))
                            [0..<length cells]), st2)"
    and info2: "Info st2 = Info st"
    and inv2: "cursor_inv (Info st t) (CellInsertionIterators st2 t) (k + 1 + int (length cells))"
    by (auto simp: info1)
  have "InsertCells st t (cell # cells) =
      Inr (concat (map (\<lambda>n. forwarded (Info st t) (k + int n) ((cell # cells) ! n))
             [0..<length (cell # cells)]), st2)"
    by (simp add: cell s1 s2 map_upt_Suc add.assoc del: upt_Suc)
  with info2 inv2 show ?case by (auto simp: add.assoc)
qed

text \<open>An insertion for one part type leaves the cursors of the other types alone.\<close>

lemma InsertCell_other_type:
  "InsertCell st t' ct np conn = Inr (calls, st') \<Longrightarrow> t \<noteq> t' \<Longrightarrow>
   CellInsertionIterators st' t = CellInsertionIterators st t \<and> Info st' = Info st"
  by (auto simp: InsertCell_def Let_def split: option.splits if_splits sum.splits)

lemma cursor_inv_inside:
  assumes c: "contiguous_from 0 bs" and inv: "cursor_inv bs it k"
    and k: "k < sum_list (map numCells bs)"
  shows "\<exists>i. pIt it = Some i \<and> i < length bs \<and> owner bs k = Some (bs ! i) \<and>
            numCellsInserted it = k - startId (bs ! i)"
proof -
  from inv obtain i where pit: "pIt it = Some i"
    by (auto simp: cursor_inv_def split: option.splits)
  from inv pit k have i: "i < length bs"
    by (auto simp: cursor_inv_def split: if_splits)
  with inv pit have j: "0 \<le> numCellsInserted it" "numCellsInserted it < numCells (bs ! i)"
    and keq: "k = startId (bs ! i) + numCellsInserted it"
    by (auto simp: cursor_inv_def)
  have "owner bs k = Some (bs ! i)"
    using owner_nth [OF c i] j keq by simp
  with pit i keq show ?thesis by simp
qed

lemma cursor_inv_end:
  assumes c: "contiguous_from 0 bs" and inv: "cursor_inv bs it (sum_list (map numCells bs))"
  shows "it = \<lparr>pIt = Some (length bs), numCellsInserted = 0\<rparr>"
proof -
  from inv obtain i where pit: "pIt it = Some i"
    by (auto simp: cursor_inv_def split: option.splits)
  have "\<not> i < length bs"
  proof
    assume i: "i < length bs"
    with inv pit have "sum_list (map numCells bs) < startId (bs ! i) + numCells (bs ! i)"
      by (auto simp: cursor_inv_def)
    with contiguous_from_total [OF c i] show False by simp
  qed
  with inv pit show ?thesis by (simp add: cursor_inv_def)
qed

lemma InitCellInsertion_cursor:
  assumes c: "contiguous_from 0 (Info st t)" and ne: "Info st t \<noteq> []"
  shows "cursor_inv (Info (InitCellInsertion st) t)
           (CellInsertionIterators (InitCellInsertion st) t) 0"
proof -
  from ne obtain b bs where bs: "Info st t = b # bs" by (cases "Info st t") auto
  with c show ?thesis
    by (simp add: InitCellInsertion_def PartInsertion_begin_def cursor_inv_def)
qed

lemma cursor_inv_bounds:
  assumes inv: "cursor_inv bs it k" and k: "k < sum_list (map numCells bs)"
  shows "\<exists>i. pIt it = Some i \<and> i < length bs \<and> startId (bs ! i) \<le> k \<and>
            k < startId (bs ! i) + numCells (bs ! i)"
proof -
  from inv obtain i where pit: "pIt it = Some i"
    by (auto simp: cursor_inv_def split: option.splits)
  from inv pit k have i: "i < length bs"
    by (auto simp: cursor_inv_def split: if_splits)
  with inv pit show ?thesis by (auto simp: cursor_inv_def)
qed

text \<open>
  The list that names block 0 once for each of its cells, then block 1, and so on, has one
  entry per cell, and its entry for a cell is the block the cell lies in.
\<close>

lemma runs_length:
  "contiguous_from a bs \<Longrightarrow>
   int (length (concat (map (\<lambda>i. replicate (nat (numCells (bs ! i))) (f i)) [0..<length bs]))) =
     sum_list (map numCells bs)"
proof (induction bs arbitrary: a f)
  case Nil
  then show ?case by simp
next
  case (Cons b bs)
  from Cons.prems have c: "contiguous_from (a + numCells b) bs" and nb: "1 \<le> numCells b"
    by auto
  from Cons.IH [OF c, of "\<lambda>i. f (Suc i)"] nb show ?case
    by (simp add: map_upt_Suc del: upt_Suc)
qed

lemma runs_nth:
  "contiguous_from a bs \<Longrightarrow> i < length bs \<Longrightarrow> startId (bs ! i) \<le> a + int n \<Longrightarrow>
   a + int n < startId (bs ! i) + numCells (bs ! i) \<Longrightarrow>
   concat (map (\<lambda>i. replicate (nat (numCells (bs ! i))) (f i)) [0..<length bs]) ! n = f i"
proof (induction bs arbitrary: a i n f)
  case Nil
  then show ?case by simp
next
  case (Cons b bs)
  from Cons.prems(1) have c: "contiguous_from (a + numCells b) bs" and sb: "startId b = a"
    and nb: "1 \<le> numCells b" by auto
  let ?rest = "concat (map (\<lambda>i. replicate (nat (numCells (bs ! i))) (f (Suc i))) [0..<length bs])"
  have split: "concat (map (\<lambda>i. replicate (nat (numCells ((b # bs) ! i))) (f i))
                 [0..<length (b # bs)]) = replicate (nat (numCells b)) (f 0) @ ?rest"
    by (simp add: map_upt_Suc del: upt_Suc)
  show ?case
  proof (cases i)
    case 0
    with Cons.prems sb have "n < nat (numCells b)" by simp
    then show ?thesis unfolding split using 0 by (simp add: nth_append)
  next
    case (Suc i')
    with Cons.prems have i': "i' < length bs" by simp
    from contiguous_from_start_ge [OF c, of "bs ! i'"] i'
    have "a + numCells b \<le> startId (bs ! i')" by simp
    with Cons.prems(3) Suc have ge: "nat (numCells b) \<le> n" by simp
    have "?rest ! (n - nat (numCells b)) = f (Suc i')"
      using Cons.prems(3,4) Suc ge nb
      by (intro Cons.IH [OF c i']) (simp_all add: of_nat_diff)
    then show ?thesis unfolding split using ge Suc by (simp add: nth_append)
  qed
qed

text \<open>
  C4. After the registration pass and \<^verbatim>\<open>InitCellInsertion\<close>, as many \<^verbatim>\<open>InsertCell\<close> calls
  for type \<open>t\<close> as the blocks of \<open>t\<close> hold cells all succeed. Before the call for the cell
  with index \<open>n\<close> the cursor points at the block that owns \<open>n\<close>, with \<open>n\<close> minus the
  start of that block cells taken from it, so it moves one cell per call and rolls to the
  next block when a block is used up. The cell goes to \<^verbatim>\<open>AddCell\<close> of the owning block's
  part when that part is not null and is dropped otherwise. Over the pass the cursor stays
  on block 0 for as many calls as block 0 has cells, then on block 1, and so on through the
  vector: every block is visited once, in order. After the last call the cursor is at the
  end of the block vector, not beyond it.
\<close>

theorem InsertCell_cursor:
  assumes reg: "RegisterCells st0 regs = Inr st1" and empty: "Info st0 t = []"
    and len: "int (length cells) = sum_list (map numCells (Info st1 t))"
  shows "\<exists>st'. InsertCells (InitCellInsertion st1) t cells =
           Inr (concat (map (\<lambda>n. forwarded (Info st1 t) (int n) (cells ! n))
                          [0..<length cells]), st') \<and>
         (Info st1 t \<noteq> [] \<longrightarrow>
            CellInsertionIterators st' t =
              \<lparr>pIt = Some (length (Info st1 t)), numCellsInserted = 0\<rparr>) \<and>
         (\<forall>n < length cells.
            \<exists>c s i. InsertCells (InitCellInsertion st1) t (take n cells) = Inr (c, s) \<and>
              pIt (CellInsertionIterators s t) = Some i \<and> i < length (Info st1 t) \<and>
              owner (Info st1 t) (int n) = Some (Info st1 t ! i) \<and>
              numCellsInserted (CellInsertionIterators s t) = int n - startId (Info st1 t ! i)) \<and>
         map (block_before (InitCellInsertion st1) t cells) [0..<length cells] =
           concat (map (\<lambda>i. replicate (nat (numCells (Info st1 t ! i))) (Some i))
                     [0..<length (Info st1 t)])"
proof (cases "Info st1 t = []")
  case True
  with len have "cells = []" by simp
  with True show ?thesis by simp
next
  case False
  let ?st = "InitCellInsertion st1" and ?bs = "Info st1 t"
  let ?runs = "concat (map (\<lambda>i. replicate (nat (numCells (?bs ! i))) (Some i)) [0..<length ?bs])"
  have info: "Info ?st = Info st1" by (simp add: InitCellInsertion_def)
  have c: "contiguous_from 0 ?bs"
    using RegisterCells_contiguous [OF reg, of t] empty by simp
  then have c': "contiguous_from 0 (Info ?st t)" by (simp add: info)
  have inv0: "cursor_inv (Info ?st t) (CellInsertionIterators ?st t) 0"
    using InitCellInsertion_cursor [OF c False] .
  have run: "\<exists>st'. InsertCells ?st t xs =
             Inr (concat (map (\<lambda>n. forwarded ?bs (int n) (xs ! n)) [0..<length xs]), st') \<and>
           cursor_inv ?bs (CellInsertionIterators st' t) (int (length xs))"
    if "int (length xs) \<le> sum_list (map numCells ?bs)" for xs
    using InsertCells_run [OF c' inv0, of xs] that by (auto simp: info)
  from run [of cells] len obtain st' where
    all: "InsertCells ?st t cells =
             Inr (concat (map (\<lambda>n. forwarded ?bs (int n) (cells ! n)) [0..<length cells]), st')"
    and inv_end: "cursor_inv ?bs (CellInsertionIterators st' t) (sum_list (map numCells ?bs))"
    by auto
  have fin: "CellInsertionIterators st' t = \<lparr>pIt = Some (length ?bs), numCellsInserted = 0\<rparr>"
    using cursor_inv_end [OF c inv_end] .
  have before: "\<exists>c s. InsertCells ?st t (take n cells) = Inr (c, s) \<and>
                  cursor_inv ?bs (CellInsertionIterators s t) (int n)"
    if n: "n < length cells" for n
  proof -
    from n have "length (take n cells) = n" by simp
    moreover from n len have "int n < sum_list (map numCells ?bs)" by simp
    ultimately show ?thesis using run [of "take n cells"] by auto
  qed
  have pre: "\<exists>c s i. InsertCells ?st t (take n cells) = Inr (c, s) \<and>
              pIt (CellInsertionIterators s t) = Some i \<and> i < length ?bs \<and>
              owner ?bs (int n) = Some (?bs ! i) \<and>
              numCellsInserted (CellInsertionIterators s t) = int n - startId (?bs ! i)"
    if n: "n < length cells" for n
  proof -
    from n len have lt: "int n < sum_list (map numCells ?bs)" by simp
    from before [OF n] obtain c s where
      s: "InsertCells ?st t (take n cells) = Inr (c, s)"
      and inv: "cursor_inv ?bs (CellInsertionIterators s t) (int n)"
      by auto
    from cursor_inv_inside [OF c inv lt] s show ?thesis by blast
  qed
  have visit: "map (block_before ?st t cells) [0..<length cells] = ?runs"
  proof (rule nth_equalityI)
    from runs_length [OF c, of Some] len
    show "length (map (block_before ?st t cells) [0..<length cells]) = length ?runs"
      by simp
  next
    fix n assume "n < length (map (block_before ?st t cells) [0..<length cells])"
    then have n: "n < length cells" by simp
    with len have lt: "int n < sum_list (map numCells ?bs)" by simp
    from before [OF n] obtain c s where
      s: "InsertCells ?st t (take n cells) = Inr (c, s)"
      and inv: "cursor_inv ?bs (CellInsertionIterators s t) (int n)"
      by auto
    from cursor_inv_bounds [OF inv lt] obtain i where
      i: "pIt (CellInsertionIterators s t) = Some i" "i < length ?bs"
        "startId (?bs ! i) \<le> int n" "int n < startId (?bs ! i) + numCells (?bs ! i)"
      by blast
    have "block_before ?st t cells n = Some i"
      by (simp add: block_before_def s i(1))
    moreover have "?runs ! n = Some i"
      using runs_nth [OF c i(2), of n Some] i(3,4) by simp
    ultimately show "map (block_before ?st t cells) [0..<length cells] ! n = ?runs ! n"
      using n by simp
  qed
  from all fin pre visit show ?thesis by blast
qed

lemma demo_forwarded:
  "concat (map (\<lambda>n. forwarded demo_blocks (int n) (demo_conn ! n)) [0..<length demo_conn]) =
     [AddCell front_part 9 4 [0, 1, 2, 3], AddCell front_part 9 4 [2, 3, 4, 5],
      AddCell late_part 9 4 [6, 7, 8, 9], AddCell late_part 9 4 [8, 9, 10, 11],
      AddCell late_part 9 4 [10, 11, 12, 13]]"
  by (simp add: demo_conn_def demo_blocks_def forwarded_def owner_def upt_rec)

theorem InsertCell_cursor_witness:
  "\<exists>st1 st'. RegisterCells demo_storage demo_cells = Inr st1 \<and> Info demo_storage 2 = [] \<and>
     int (length demo_conn) = sum_list (map numCells (Info st1 2)) \<and>
     InsertCells (InitCellInsertion st1) 2 demo_conn =
       Inr ([AddCell front_part 9 4 [0, 1, 2, 3], AddCell front_part 9 4 [2, 3, 4, 5],
             AddCell late_part 9 4 [6, 7, 8, 9], AddCell late_part 9 4 [8, 9, 10, 11],
             AddCell late_part 9 4 [10, 11, 12, 13]], st') \<and>
     CellInsertionIterators st' 2 = \<lparr>pIt = Some 3, numCellsInserted = 0\<rparr> \<and>
     map (block_before (InitCellInsertion st1) 2 demo_conn) [0..<length demo_conn] =
       [Some 0, Some 0, Some 1, Some 2, Some 2, Some 2]"
proof -
  from demo_registered obtain st1 where
    st: "RegisterCells demo_storage demo_cells = Inr st1" and bs: "Info st1 2 = demo_blocks"
    by blast
  have len: "int (length demo_conn) = sum_list (map numCells (Info st1 2))"
    by (simp add: bs demo_blocks_def demo_conn_def)
  have ne: "Info st1 2 \<noteq> []" "length (Info st1 2) = 3" by (simp_all add: bs demo_blocks_def)
  have runs: "concat (map (\<lambda>i. replicate (nat (numCells (Info st1 2 ! i))) (Some i))
                 [0..<length (Info st1 2)]) = [Some 0, Some 0, Some 1, Some 2, Some 2, Some 2]"
    by (simp add: bs demo_blocks_def upt_rec eval_nat_numeral)
  have fwd: "concat (map (\<lambda>n. forwarded (Info st1 2) (int n) (demo_conn ! n))
                      [0..<length demo_conn]) =
       [AddCell front_part 9 4 [0, 1, 2, 3], AddCell front_part 9 4 [2, 3, 4, 5],
        AddCell late_part 9 4 [6, 7, 8, 9], AddCell late_part 9 4 [8, 9, 10, 11],
        AddCell late_part 9 4 [10, 11, 12, 13]]"
    by (simp only: bs demo_forwarded)
  from InsertCell_cursor [OF st demo_empty len] ne(1) obtain st' where
    a: "InsertCells (InitCellInsertion st1) 2 demo_conn =
       Inr (concat (map (\<lambda>n. forwarded (Info st1 2) (int n) (demo_conn ! n))
                      [0..<length demo_conn]), st')"
    and b: "CellInsertionIterators st' 2 =
       \<lparr>pIt = Some (length (Info st1 2)), numCellsInserted = 0\<rparr>"
    and v: "map (block_before (InitCellInsertion st1) 2 demo_conn) [0..<length demo_conn] =
           concat (map (\<lambda>i. replicate (nat (numCells (Info st1 2 ! i))) (Some i))
                     [0..<length (Info st1 2)])"
    by blast
  from a have a': "InsertCells (InitCellInsertion st1) 2 demo_conn =
       Inr ([AddCell front_part 9 4 [0, 1, 2, 3], AddCell front_part 9 4 [2, 3, 4, 5],
             AddCell late_part 9 4 [6, 7, 8, 9], AddCell late_part 9 4 [8, 9, 10, 11],
             AddCell late_part 9 4 [10, 11, 12, 13]], st')"
    by (simp only: fwd)
  from b have b': "CellInsertionIterators st' 2 = \<lparr>pIt = Some 3, numCellsInserted = 0\<rparr>"
    by (simp only: ne(2))
  from v have v': "map (block_before (InitCellInsertion st1) 2 demo_conn)
       [0..<length demo_conn] = [Some 0, Some 0, Some 1, Some 2, Some 2, Some 2]"
    by (simp only: runs)
  show ?thesis
    by (rule exI [of _ st1], rule exI [of _ st']) (intro conjI st demo_empty len a' b' v')
qed

section \<open>Walks over the index\<close>

subsection \<open>Dead cells\<close>

text \<open>A value that fits an \<^verbatim>\<open>int\<close> is not changed by the conversion.\<close>

lemma int_of_vtkIdType_id:
  "- 2147483648 \<le> x \<Longrightarrow> x < 2147483648 \<Longrightarrow> int_of_vtkIdType x = x"
  by (simp add: int_of_vtkIdType_def)

lemma InitCellIteration_loop_zero: "pos \<le> 0 \<Longrightarrow> InitCellIteration_loop pos it = it"
  by (subst InitCellIteration_loop.simps) simp

lemma SetCellDeadFlags_loop_walk:
  "CellIterator st = it \<Longrightarrow>
   SetCellDeadFlags_loop st dead calls =
     (calls @ concat (map (\<lambda>i. case part (it ! i) of
                               Some q \<Rightarrow> [EnableDeadCells q,
                                  SetCellsDeadState q (dead + sum_list (map numCells (take i it)))
                                    (numCells (it ! i))]
                             | None \<Rightarrow> []) [0..<length it]),
      dead + sum_list (map numCells it),
      st\<lparr>CellIterator := []\<rparr>)"
proof (induction it arbitrary: st dead calls)
  case Nil
  then show ?case
    by (subst SetCellDeadFlags_loop.simps) (simp add: GetNextCellPart_def)
next
  case (Cons b it)
  have next_st: "GetNextCellPart st = (Some (startId b, numCells b, part b), st\<lparr>CellIterator := it\<rparr>)"
    using Cons.prems by (simp add: GetNextCellPart_def)
  have it: "CellIterator (st\<lparr>CellIterator := it\<rparr>) = it" by simp
  have unfold: "SetCellDeadFlags_loop st dead calls =
      SetCellDeadFlags_loop (st\<lparr>CellIterator := it\<rparr>) (dead + numCells b)
        (case part b of
           Some q \<Rightarrow> calls @ [EnableDeadCells q, SetCellsDeadState q dead (numCells b)]
         | None \<Rightarrow> calls)"
    by (subst SetCellDeadFlags_loop.simps) (simp add: next_st)
  show ?case
    unfolding unfold Cons.IH [OF it]
    by (cases "part b") (simp_all add: map_upt_Suc add.assoc del: upt_Suc cong: option.case_cong)
qed

text \<open>
  C7. With a liveness array that is not null, \<^verbatim>\<open>SetCellDeadFlags\<close> walks the blocks of the
  type in order. A block whose part is not null has that part told to enable dead cells
  and handed the block's own slice of the array: it begins where the cell counts of the
  blocks before it add up to, and it has as many flags as the block has cells. The pointer
  moves by the cell count of every block, null part or not, and ends at the sum of the cell
  counts of all blocks.
\<close>

theorem SetCellDeadFlags_walk:
  "SetCellDeadFlags st t (Some death) =
     (concat (map (\<lambda>i. case part (Info st t ! i) of
                         Some q \<Rightarrow> [EnableDeadCells q,
                            SetCellsDeadState q (sum_list (map numCells (take i (Info st t))))
                              (numCells (Info st t ! i))]
                       | None \<Rightarrow> []) [0..<length (Info st t)]),
      sum_list (map numCells (Info st t)),
      st\<lparr>CellIterator := []\<rparr>)"
proof -
  have "CellIterator (InitCellIteration st t 0) = Info st t"
    by (simp add: InitCellIteration_def InitCellIteration_loop_zero int_of_vtkIdType_id)
  from SetCellDeadFlags_loop_walk [OF this, of 0 "[]"] show ?thesis
    by (simp add: SetCellDeadFlags_def InitCellIteration_def InitCellIteration_loop_zero
          int_of_vtkIdType_id cong: option.case_cong)
qed

subsection \<open>Cell properties\<close>

lemma overlap_eq:
  "overlap s n b = max 0 (min (s + n) (startId b + numCells b) - max s (startId b))"
proof -
  have "{s ..< s + n} \<inter> {startId b ..< startId b + numCells b} =
        {max s (startId b) ..< min (s + n) (startId b + numCells b)}"
    by auto
  then have "overlap s n b =
      int (nat (min (s + n) (startId b + numCells b) - max s (startId b)))"
    unfolding overlap_def by (simp only: card_atLeastLessThan_int)
  then show ?thesis by (simp add: max_def)
qed

lemma overlap_zero_after:
  assumes "contiguous_from g bs" and "n < 0 \<or> s + n < g" and "b \<in> set bs"
  shows "overlap s n b = 0"
  using contiguous_from_start_ge [OF assms(1,3)] assms(2)
  by (auto simp: overlap_eq)

lemma overlap_zero_before:
  "startId b + numCells b < s \<Longrightarrow> overlap s n b = 0"
  by (auto simp: overlap_eq)

lemma clipped_zero:
  "(\<And>b. b \<in> set bs \<Longrightarrow> overlap s n b = 0) \<Longrightarrow>
   clipped s n k loc bs = [] \<and> sum_list (map (overlap s n) bs) = 0"
  by (induction bs arbitrary: loc) (auto split: option.splits)

lemma clipped_append:
  "clipped s n k loc (xs @ ys) =
     clipped s n k loc xs @ clipped s n k (loc + sum_list (map (overlap s n) xs) * k) ys"
  by (induction xs arbitrary: loc) (auto simp: algebra_simps)

lemma overlap_sum:
  "contiguous_from g bs \<Longrightarrow> 0 \<le> n \<Longrightarrow>
   sum_list (map (overlap s n) bs) =
     max 0 (min (s + n) (g + sum_list (map numCells bs)) - max s g)"
proof (induction bs arbitrary: g)
  case Nil
  then show ?case by simp
next
  case (Cons b bs)
  from Cons.prems have c: "contiguous_from (g + numCells b) bs" and sb: "startId b = g"
    and nb: "1 \<le> numCells b" by auto
  from contiguous_from_sum_nonneg [OF c] have t: "0 \<le> sum_list (map numCells bs)" .
  show ?case
    using Cons.IH [OF c Cons.prems(2)] sb nb t Cons.prems(2)
    by (simp add: overlap_eq [of s n b]) (auto simp: min_def max_def)
qed

text \<open>
  When the start of the window and the cell count of every block fit an \<^verbatim>\<open>int\<close>, no
  conversion in \<^verbatim>\<open>InitCellIteration\<close> changes a value, and the iterator is left on the
  first block that does not end before the window.
\<close>

lemma InitCellIteration_loop_split:
  "contiguous_from a bs \<Longrightarrow> (\<And>b. b \<in> set bs \<Longrightarrow> numCells b \<le> 2147483648) \<Longrightarrow>
   pos < 2147483648 \<Longrightarrow>
   \<exists>pre. bs = pre @ InitCellIteration_loop pos bs \<and>
     (\<forall>b \<in> set pre. startId b + numCells b < a + pos) \<and>
     (InitCellIteration_loop pos bs \<noteq> [] \<longrightarrow>
        a + pos \<le> startId (hd (InitCellIteration_loop pos bs)) +
                   numCells (hd (InitCellIteration_loop pos bs)))"
proof (induction bs arbitrary: a pos)
  case Nil
  then show ?case by (subst (1 2 3 4) InitCellIteration_loop.simps) simp
next
  case (Cons b bs)
  from Cons.prems(1) have c: "contiguous_from (a + numCells b) bs" and sb: "startId b = a"
    and nb: "1 \<le> numCells b" by auto
  from Cons.prems(2) have small: "numCells b \<le> 2147483648"
    and rest: "\<And>x. x \<in> set bs \<Longrightarrow> numCells x \<le> 2147483648" by simp_all
  show ?case
  proof (cases "pos > 0 \<and> pos - numCells b > 0")
    case True
    with nb Cons.prems(3) have fit: "int_of_vtkIdType (pos - numCells b) = pos - numCells b"
      by (intro int_of_vtkIdType_id) simp_all
    from True have eq: "InitCellIteration_loop pos (b # bs) =
        InitCellIteration_loop (pos - numCells b) bs"
      by (subst InitCellIteration_loop.simps) (simp add: fit)
    have "pos - numCells b < 2147483648" using nb Cons.prems(3) by simp
    from Cons.IH [OF c rest this] obtain pre where
      pre: "bs = pre @ InitCellIteration_loop (pos - numCells b) bs"
        "\<forall>x \<in> set pre. startId x + numCells x < a + pos"
        "InitCellIteration_loop (pos - numCells b) bs \<noteq> [] \<longrightarrow>
           a + pos \<le> startId (hd (InitCellIteration_loop (pos - numCells b) bs)) +
                      numCells (hd (InitCellIteration_loop (pos - numCells b) bs))"
      by auto
    have "b # bs = (b # pre) @ InitCellIteration_loop pos (b # bs)"
      using pre(1) eq by simp
    moreover have "\<forall>x \<in> set (b # pre). startId x + numCells x < a + pos"
      using pre(2) sb True by simp
    ultimately show ?thesis using pre(3) eq by metis
  next
    case False
    have eq: "InitCellIteration_loop pos (b # bs) = b # bs"
    proof (cases "pos > 0")
      case True
      with False have le: "pos - numCells b \<le> 0" by simp
      from True small have "int_of_vtkIdType (pos - numCells b) = pos - numCells b"
        using Cons.prems(3) nb by (intro int_of_vtkIdType_id) simp_all
      with True le show ?thesis
        by (subst InitCellIteration_loop.simps) (simp add: Let_def InitCellIteration_loop_zero)
    next
      case False
      then show ?thesis by (simp add: InitCellIteration_loop_zero)
    qed
    have "a + pos \<le> startId b + numCells b" using False sb nb by auto
    then show ?thesis unfolding eq by (intro exI [of _ "[]"]) simp
  qed
qed

lemma FillCellArray_loop_clipped:
  assumes "contiguous_from g it"
    and "it \<noteq> [] \<longrightarrow> s \<le> g + numCells (hd it)"
    and "CellIterator st = it"
  shows "\<exists>calls' st'.
           FillCellArray_loop st s n k loc calls =
             (calls', loc + sum_list (map (overlap s n) it) * k, st') \<and>
           filter (\<lambda>c. cells_read c \<noteq> 0) calls' =
             filter (\<lambda>c. cells_read c \<noteq> 0) calls @ clipped s n k loc it"
  using assms
proof (induction it arbitrary: g st loc calls)
  case Nil
  then show ?case
    by (subst FillCellArray_loop.simps) (simp add: GetNextCellPart_def)
next
  case (Cons b it)
  from Cons.prems(1) have c: "contiguous_from (g + numCells b) it" and sb: "startId b = g"
    and nb: "1 \<le> numCells b" by auto
  from Cons.prems(2) have reach: "s \<le> g + numCells b" by simp
  let ?st = "st\<lparr>CellIterator := it\<rparr>"
  have next_st: "GetNextCellPart st = (Some (g, numCells b, part b), ?st)"
    using Cons.prems(3) sb by (simp add: GetNextCellPart_def)
  show ?case
  proof (cases "min (g + numCells b) (s + n) < max g s")
    case True
    then have stop: "FillCellArray_loop st s n k loc calls = (calls, loc, ?st)"
      by (subst FillCellArray_loop.simps) (simp add: next_st Let_def)
    from True reach nb have "n < 0 \<or> s + n < g" by (auto simp: min_def max_def split: if_splits)
    then have "overlap s n x = 0" if "x \<in> set (b # it)" for x
      using overlap_zero_after [OF Cons.prems(1) _ that] by blast
    from clipped_zero [of "b # it" s n k loc, OF this]
    have "clipped s n k loc (b # it) = []" "sum_list (map (overlap s n) (b # it)) = 0"
      by blast+
    with stop show ?thesis by simp
  next
    case False
    then have ov: "overlap s n b = min (g + numCells b) (s + n) - max g s"
      by (simp add: overlap_eq sb min.commute max.commute)
    let ?calls = "case part b of
        Some q \<Rightarrow> calls @ [ReadCellProperties q loc (overlap s n b) k]
      | None \<Rightarrow> calls"
    have step: "FillCellArray_loop st s n k loc calls =
        FillCellArray_loop ?st s n k (loc + overlap s n b * k) ?calls"
      using False by (subst FillCellArray_loop.simps) (simp add: next_st Let_def ov cong: option.case_cong)
    from False have "s \<le> g + numCells b" by (auto simp: min_def max_def split: if_splits)
    moreover have "1 \<le> numCells (hd it)" if "it \<noteq> []"
      using contiguous_from_pos [OF c, of "hd it"] that by simp
    ultimately have reach': "it \<noteq> [] \<longrightarrow> s \<le> g + numCells b + numCells (hd it)"
      by auto
    have "CellIterator ?st = it" by simp
    from Cons.IH [OF c reach' this, of "loc + overlap s n b * k" ?calls]
    obtain calls' st' where
      run: "FillCellArray_loop ?st s n k (loc + overlap s n b * k) ?calls =
          (calls', loc + overlap s n b * k + sum_list (map (overlap s n) it) * k, st')"
      and flt: "filter (\<lambda>c. cells_read c \<noteq> 0) calls' =
          filter (\<lambda>c. cells_read c \<noteq> 0) ?calls @
          clipped s n k (loc + overlap s n b * k) it"
      by blast
    have "filter (\<lambda>c. cells_read c \<noteq> 0) ?calls @ clipped s n k (loc + overlap s n b * k) it =
          filter (\<lambda>c. cells_read c \<noteq> 0) calls @ clipped s n k loc (b # it)"
      by (cases "part b") simp_all
    with step run flt show ?thesis by (simp add: algebra_simps)
  qed
qed

text \<open>
  After the registration pass, when the start of the window and the cell count of every
  block of the type fit an \<^verbatim>\<open>int\<close>, \<^verbatim>\<open>FillCellProperties\<close> for a window of \<open>nCells\<close> cells
  from \<open>firstId\<close> makes, for every block with a part that shares cells with the window,
  one \<^verbatim>\<open>ReadCellProperties\<close> call on that part with the number of shared cells, in block
  order; any other call it makes hands over no cell. The buffer pointer advances by the
  number of shared cells times the number of components, and so by \<open>nCells * k\<close> when
  the window lies within the cells of the type.
\<close>

lemma FillCellProperties_clipped_within_int:
  assumes reg: "RegisterCells st0 regs = Inr st" and empty: "Info st0 t = []"
    and lo: "- 2147483648 \<le> firstId" and hi: "firstId < 2147483648"
    and small: "\<And>b. b \<in> set (Info st t) \<Longrightarrow> numCells b \<le> 2147483648"
  shows "\<exists>calls loc st'.
           FillCellProperties st t firstId nCells k = (calls, loc, st') \<and>
           filter (\<lambda>c. cells_read c \<noteq> 0) calls = clipped firstId nCells k 0 (Info st t) \<and>
           loc = sum_list (map (overlap firstId nCells) (Info st t)) * k \<and>
           (0 \<le> firstId \<and> 0 \<le> nCells \<and>
            firstId + nCells \<le> sum_list (map numCells (Info st t)) \<longrightarrow>
              loc = nCells * k)"
proof -
  let ?bs = "Info st t" and ?it = "InitCellIteration_loop firstId (Info st t)"
  have c: "contiguous_from 0 ?bs"
    using RegisterCells_contiguous [OF reg, of t] empty by simp
  from InitCellIteration_loop_split [OF c small hi] obtain pre where
    split: "?bs = pre @ ?it"
    and before: "\<forall>b \<in> set pre. startId b + numCells b < firstId"
    and reach: "?it \<noteq> [] \<longrightarrow> firstId \<le> startId (hd ?it) + numCells (hd ?it)"
    by auto
  from c split have c_it: "contiguous_from (sum_list (map numCells pre)) ?it"
    by (metis add_0 contiguous_from_append)
  have hd_start: "startId (hd ?it) = sum_list (map numCells pre)" if "?it \<noteq> []"
    using c_it that by (cases ?it) auto
  from reach hd_start
  have reach': "?it \<noteq> [] \<longrightarrow> firstId \<le> sum_list (map numCells pre) + numCells (hd ?it)"
    by auto
  have pre_zero: "clipped firstId nCells k 0 pre = []"
      "sum_list (map (overlap firstId nCells) pre) = 0"
    using clipped_zero [of pre firstId nCells k 0] before overlap_zero_before by blast+
  have "CellIterator (InitCellIteration st t firstId) = ?it"
    by (simp add: InitCellIteration_def int_of_vtkIdType_id [OF lo hi])
  from FillCellArray_loop_clipped [OF c_it reach' this, of nCells k 0 "[]"]
  obtain calls st' where
    run: "FillCellProperties st t firstId nCells k =
        (calls, sum_list (map (overlap firstId nCells) ?it) * k, st')"
    and flt: "filter (\<lambda>c. cells_read c \<noteq> 0) calls = clipped firstId nCells k 0 ?it"
    by (auto simp: FillCellArray_def FillCellProperties_def)
  have cl: "clipped firstId nCells k 0 ?bs = clipped firstId nCells k 0 ?it"
    by (subst split) (simp add: clipped_append pre_zero)
  have sm: "sum_list (map (overlap firstId nCells) ?bs) =
      sum_list (map (overlap firstId nCells) ?it)"
    by (subst split) (simp add: pre_zero)
  have cover: "sum_list (map (overlap firstId nCells) ?bs) = nCells"
    if "0 \<le> firstId \<and> 0 \<le> nCells \<and> firstId + nCells \<le> sum_list (map numCells ?bs)"
    using overlap_sum [OF c, of nCells firstId] that by simp
  from run flt cl sm cover show ?thesis by auto
qed

lemma demo_clipped:
  "clipped 1 3 2 0 demo_blocks =
     [ReadCellProperties front_part 0 1 2, ReadCellProperties late_part 4 1 2]"
  by (simp add: demo_blocks_def overlap_eq)

lemma FillCellProperties_clipped_example:
  "\<exists>st calls loc st'. RegisterCells demo_storage demo_cells = Inr st \<and>
     Info demo_storage 2 = [] \<and>
     (0::int) \<le> 1 \<and> (0::int) \<le> 3 \<and> 1 + 3 \<le> sum_list (map numCells (Info st 2)) \<and>
     FillCellProperties st 2 1 3 2 = (calls, loc, st') \<and>
     filter (\<lambda>c. cells_read c \<noteq> 0) calls =
       [ReadCellProperties front_part 0 1 2, ReadCellProperties late_part 4 1 2] \<and>
     loc = 6"
proof -
  from demo_registered obtain st where
    st: "RegisterCells demo_storage demo_cells = Inr st" and bs: "Info st 2 = demo_blocks"
    by blast
  have cov: "(0::int) \<le> 1 \<and> (0::int) \<le> 3 \<and> 1 + 3 \<le> sum_list (map numCells (Info st 2))"
    by (simp add: bs demo_blocks_def)
  have small: "numCells b \<le> 2147483648" if "b \<in> set (Info st 2)" for b
    using that by (auto simp: bs demo_blocks_def)
  have fit: "- 2147483648 \<le> (1::int)" "(1::int) < 2147483648" by simp_all
  from FillCellProperties_clipped_within_int
    [where t = 2 and firstId = 1 and nCells = 3 and k = 2, OF st demo_empty fit small] cov
  obtain calls loc st' where
    "FillCellProperties st 2 1 3 2 = (calls, loc, st')"
    "filter (\<lambda>c. cells_read c \<noteq> 0) calls = clipped 1 3 2 0 (Info st 2)"
    "loc = 3 * 2"
    by auto
  with st demo_empty cov show ?thesis
    by (simp add: bs demo_clipped)
qed

subsection \<open>A window in a block of more cells than an int holds\<close>

text \<open>
  Registering the same material again and again grows the one block of that material.
\<close>

lemma RegisterCells_same_part:
  "Info st t = [b] \<Longrightarrow> partId b = m \<Longrightarrow>
   \<exists>st'. RegisterCells st (replicate n (t, m, k)) = Inr st' \<and>
     Info st' t = [b\<lparr>numCells := numCells b + int n,
                     cellStructureSize := cellStructureSize b + int n * k\<rparr>]"
proof (induction n arbitrary: st b)
  case 0
  then show ?case by simp
next
  case (Suc n)
  let ?b = "b\<lparr>numCells := numCells b + 1, cellStructureSize := cellStructureSize b + k\<rparr>"
  from Suc.prems obtain st1 where
    s1: "RegisterCell st t m k = Inr st1" and i1: "Info st1 t = [?b]"
    by (simp add: RegisterCell_def Let_def)
  from Suc.prems(2) have "partId ?b = m" by simp
  from Suc.IH [OF i1 this] obtain st' where
    "RegisterCells st1 (replicate n (t, m, k)) = Inr st'"
    "Info st' t = [?b\<lparr>numCells := numCells ?b + int n,
                      cellStructureSize := cellStructureSize ?b + int n * k\<rparr>]"
    by blast
  with s1 show ?case by (simp add: algebra_simps)
qed

lemma demo_one_block:
  "\<exists>st. RegisterCells demo_storage (replicate (Suc n) (2, 0, 4)) = Inr st \<and>
     Info st 2 = [\<lparr>numCells = 1 + int n, startId = 0, cellStructureSize = 4 + int n * 4,
                    partId = 0, part = Some front_part\<rparr>]"
proof -
  let ?b = "\<lparr>numCells = 1, startId = 0, cellStructureSize = 4, partId = 0,
             part = Some front_part\<rparr>"
  obtain st1 where s1: "RegisterCell demo_storage 2 0 4 = Inr st1" and i1: "Info st1 2 = [?b]"
    by (simp add: RegisterCell_def Parts_at_def PartInfo_new_def demo_storage_def
          LSDynaPartStorage_new_def)
  have "partId ?b = 0" by simp
  from RegisterCells_same_part [OF i1 this, of n 4] s1 show ?thesis by simp
qed

text \<open>
  C2. A registration pass of 4294967296 cells of one material leaves one block of that many
  cells for \<open>front_part\<close>. The window of two cells from cell 5 lies inside that block, so
  the part is due two cells. \<^verbatim>\<open>InitCellIteration\<close> takes the start of the window in an
  \<^verbatim>\<open>int\<close> and subtracts the cell count of the block from it: the difference wraps around
  to 5, which is still positive, so the iterator moves past the block to the end of the
  vector, and \<^verbatim>\<open>FillCellProperties\<close> makes no call and leaves the pointer where it was.
\<close>

theorem FillCellProperties_narrowed_window:
  "\<exists>st st'. RegisterCells demo_storage (replicate 4294967296 (2, 0, 4)) = Inr st \<and>
     Info st 2 = [\<lparr>numCells = 4294967296, startId = 0, cellStructureSize = 17179869184,
                    partId = 0, part = Some front_part\<rparr>] \<and>
     overlap 5 2 (hd (Info st 2)) = 2 \<and>
     FillCellProperties st 2 5 2 1 = ([], 0, st')"
proof -
  let ?b = "\<lparr>numCells = 4294967296, startId = 0, cellStructureSize = 17179869184,
             partId = 0, part = Some front_part\<rparr>"
  have n: "(4294967296::nat) = Suc 4294967295" by simp
  from demo_one_block [of 4294967295] obtain st where
    st: "RegisterCells demo_storage (replicate 4294967296 (2, 0, 4)) = Inr st"
    and bs: "Info st 2 = [?b]"
    unfolding n [symmetric] by auto
  have ov: "overlap 5 2 (hd (Info st 2)) = 2" by (simp add: bs overlap_eq)
  have "InitCellIteration_loop 5 [?b] = InitCellIteration_loop 5 []"
    by (subst InitCellIteration_loop.simps) (simp add: int_of_vtkIdType_def)
  also have "\<dots> = []" by (subst InitCellIteration_loop.simps) simp
  finally have it: "CellIterator (InitCellIteration st 2 5) = []"
    by (simp add: InitCellIteration_def bs int_of_vtkIdType_id)
  have "FillCellProperties st 2 5 2 1 = ([], 0, InitCellIteration st 2 5)"
    unfolding FillCellProperties_def FillCellArray_def
    by (subst FillCellArray_loop.simps) (simp add: GetNextCellPart_def it)
  with st bs ov show ?thesis by blast
qed

section \<open>The part directory\<close>

text \<open>
  C9. The storage made for three parts has the slots 0, 1 and 2. \<^verbatim>\<open>PartExists(3)\<close> passes
  the range test, which rejects an index only when it is greater than \<^verbatim>\<open>NumParts\<close>, and
  reads the slot array one past its end.
\<close>

theorem PartExists_at_NumParts:
  "PartExists (LSDynaPartStorage_new 3) 3 = Inl OutOfBounds \<and>
   NumParts (LSDynaPartStorage_new 3) = 3 \<and> length (Parts (LSDynaPartStorage_new 3)) = 3"
  by (simp add: PartExists_def Parts_at_def LSDynaPartStorage_new_def)

text \<open>The same holds for every storage whose slot array has \<^verbatim>\<open>NumParts\<close> slots.\<close>

lemma PartExists_one_past_end:
  "int (length (Parts st)) = NumParts st \<Longrightarrow> PartExists st (NumParts st) = Inl OutOfBounds"
  by (simp add: PartExists_def Parts_at_def)

text \<open>Everywhere else the test is right: inside the range the answer is whether the slot holds
  a part, and below 0 or above \<^verbatim>\<open>NumParts\<close> it is no.\<close>

lemma PartExists_inside:
  "0 \<le> i \<Longrightarrow> i < NumParts st \<Longrightarrow> int (length (Parts st)) = NumParts st \<Longrightarrow>
   PartExists st i = Inr (Parts st ! nat i \<noteq> None)"
  by (simp add: PartExists_def Parts_at_def)

lemma PartExists_outside:
  "i < 0 \<or> NumParts st < i \<Longrightarrow> PartExists st i = Inr False"
  by (auto simp: PartExists_def)

section \<open>Read planning\<close>

lemma ReadCellUserIds_loop_advance:
  "file_advance (fst (ReadCellUserIds_loop st t s chunks)) = sum_list (map fst chunks)"
proof (induction chunks arbitrary: st s)
  case Nil
  then show ?case by (simp add: file_advance_def)
next
  case (Cons ch chunks)
  obtain sz buf where ch: "ch = (sz, buf)" by (cases ch)
  obtain calls loc st1 where f: "FillCellUserIdArray st buf t s sz = (calls, loc, st1)"
    by (cases "FillCellUserIdArray st buf t s sz") auto
  obtain fam calls' st2 where l: "ReadCellUserIds_loop st1 t (s + sz) chunks = (fam, calls', st2)"
    by (cases "ReadCellUserIds_loop st1 t (s + sz) chunks") auto
  from Cons.IH [of st1 "s + sz"] l have "file_advance fam = sum_list (map fst chunks)" by simp
  then show ?case by (simp add: ch f l file_advance_def)
qed

text \<open>
  C10. In both branches of \<^verbatim>\<open>GetPartReadInfo\<close> the cells skipped at the start, the cells
  read and the cells skipped at the end add up to the number of cells of the type. So
  \<^verbatim>\<open>ReadCellUserIds\<close> moves the file by that number of words when the type is skipped, and
  also when it is read, given that the chunks the file family hands out add up to the
  number of cells to read.
\<close>

theorem GetPartReadInfo_conserves:
  "(case GetPartReadInfo c t of
      (numberOfCells, numCellsToSkipStart, numCellsToSkipEnd) \<Rightarrow>
        numCellsToSkipStart + numberOfCells + numCellsToSkipEnd = NumberOfCells c t) \<and>
   file_advance (fst (ReadCellUserIds c t 0 wordSize chunks)) = NumberOfCells c t \<and>
   (sum_list (map fst chunks) = fst (GetPartReadInfo c t) \<longrightarrow>
      file_advance (fst (ReadCellUserIds c t status wordSize chunks)) = NumberOfCells c t)"
proof -
  obtain n a b where g: "GetPartReadInfo c t = (n, a, b)" by (cases "GetPartReadInfo c t")
  then have sum: "a + n + b = NumberOfCells c t" and n0: "0 \<le> n"
    by (auto simp: GetPartReadInfo_def Let_def split: if_splits)
  have skip: "file_advance (fst (ReadCellUserIds c t 0 wordSize chunks)) = NumberOfCells c t"
    using sum by (simp add: ReadCellUserIds_def g file_advance_def)
  have rd: "file_advance (fst (ReadCellUserIds c t status wordSize chunks)) = NumberOfCells c t"
    if "sum_list (map fst chunks) = n"
  proof (cases "status = 0")
    case True
    with skip show ?thesis by simp
  next
    case False
    obtain fam calls st where
      l: "ReadCellUserIds_loop (Storage c) t 0 chunks = (fam, calls, st)"
      by (cases "ReadCellUserIds_loop (Storage c) t 0 chunks") auto
    from ReadCellUserIds_loop_advance [of "Storage c" t 0 chunks] l that
    have "file_advance fam = n" by simp
    with False sum n0 that l show ?thesis
      by (auto simp: ReadCellUserIds_def g file_advance_def)
  qed
  from sum skip rd g show ?thesis by simp
qed

theorem GetPartReadInfo_conserves_witness:
  "GetPartReadInfo demo_collection 2 = (5, 2, 3) \<and>
   sum_list (map fst [(3, \<lambda>i. 100 + i), (2, \<lambda>i. 200 + i)]) = fst (GetPartReadInfo demo_collection 2) \<and>
   file_advance (fst (ReadCellUserIds demo_collection 2 1 4 [(3, \<lambda>i. 100 + i), (2, \<lambda>i. 200 + i)])) = 10 \<and>
   file_advance (fst (ReadCellUserIds demo_collection 2 0 4 [(3, \<lambda>i. 100 + i), (2, \<lambda>i. 200 + i)])) = 10"
proof -
  have g: "GetPartReadInfo demo_collection 2 = (5, 2, 3)"
    by (simp add: GetPartReadInfo_def demo_collection_def)
  have s: "sum_list (map fst [(3, \<lambda>i. 100 + i), (2, \<lambda>i::int. 200 + i)]) = fst (GetPartReadInfo demo_collection 2)"
    by (simp add: g)
  from GetPartReadInfo_conserves [of demo_collection 2 4 "[(3, \<lambda>i. 100 + i), (2, \<lambda>i. 200 + i)]" 1] s g
  show ?thesis by (simp add: demo_collection_def)
qed

section \<open>Point properties\<close>

text \<open>
  C8. The comparison \<^verbatim>\<open>sortPartsOnGlobalIds\<close> holds in both directions for any two parts
  of which one starts earlier and also ends later than the other. Such parts exist, so the
  comparison is not asymmetric.
\<close>

theorem sortPartsOnGlobalIds_not_asymmetric:
  "(\<forall>p1 p2. GetMinGlobalPointId p1 < GetMinGlobalPointId p2 \<and>
             GetMaxGlobalPointId p2 < GetMaxGlobalPointId p1 \<longrightarrow>
             sortPartsOnGlobalIds p1 p2 \<and> sortPartsOnGlobalIds p2 p1) \<and>
   (\<exists>p1 p2. sortPartsOnGlobalIds p1 p2 \<and> sortPartsOnGlobalIds p2 p1) \<and>
   \<not> asymp sortPartsOnGlobalIds"
proof -
  have both: "sortPartsOnGlobalIds p1 p2 \<and> sortPartsOnGlobalIds p2 p1"
    if "GetMinGlobalPointId p1 < GetMinGlobalPointId p2 \<and>
        GetMaxGlobalPointId p2 < GetMaxGlobalPointId p1" for p1 p2
    using that by (simp add: sortPartsOnGlobalIds_def)
  have ex: "sortPartsOnGlobalIds wide_part late_part \<and> sortPartsOnGlobalIds late_part wide_part"
    by (rule both) (simp add: wide_part_def late_part_def)
  then have "\<not> asymp sortPartsOnGlobalIds"
    by (meson asympD)
  with both ex show ?thesis by blast
qed

theorem sortPartsOnGlobalIds_not_asymmetric_witness:
  "GetMinGlobalPointId wide_part < GetMinGlobalPointId late_part \<and>
   GetMaxGlobalPointId late_part < GetMaxGlobalPointId wide_part \<and>
   sortPartsOnGlobalIds wide_part late_part \<and> sortPartsOnGlobalIds late_part wide_part"
proof -
  have h: "GetMinGlobalPointId wide_part < GetMinGlobalPointId late_part \<and>
           GetMaxGlobalPointId late_part < GetMaxGlobalPointId wide_part"
    by (simp add: wide_part_def late_part_def)
  with sortPartsOnGlobalIds_not_asymmetric show ?thesis by blast
qed

subsection \<open>The chunk loop on a working set ordered by minimum\<close>

text \<open>
  The first inner loop removes a prefix of the working set, and every part it removes ends
  before the chunk.
\<close>

lemma pop_filled_suffix:
  "\<exists>pre. ps = pre @ pop_filled offset ps \<and> (\<forall>p \<in> set pre. GetMaxGlobalPointId p < offset)"
proof (induction ps)
  case Nil
  then show ?case by simp
next
  case (Cons p ps)
  show ?case
  proof (cases "GetMaxGlobalPointId p < offset")
    case True
    from Cons.IH obtain pre where
      "ps = pre @ pop_filled offset ps" "\<forall>q \<in> set pre. GetMaxGlobalPointId q < offset"
      by blast
    with True have "p # ps = (p # pre) @ pop_filled offset (p # ps) \<and>
        (\<forall>q \<in> set (p # pre). GetMaxGlobalPointId q < offset)"
      by simp
    then show ?thesis by blast
  next
    case False
    then have "p # ps = [] @ pop_filled offset (p # ps)" by simp
    then show ?thesis by (metis empty_iff list.set(1))
  qed
qed

lemma pop_filled_suffix_example:
  "pop_filled 1048576 [front_part, late_part, wide_part] = [late_part, wide_part] \<and>
   GetMaxGlobalPointId front_part < 1048576"
proof -
  have e: "pop_filled 1048576 [front_part, late_part, wide_part] = [late_part, wide_part]"
    by (simp add: front_part_def wide_part_def late_part_def)
  from pop_filled_suffix [of "[front_part, late_part, wide_part]" 1048576] obtain pre where
    "[front_part, late_part, wide_part] = pre @ [late_part, wide_part]"
    "\<forall>p \<in> set pre. GetMaxGlobalPointId p < 1048576"
    unfolding e by blast
  then have "GetMaxGlobalPointId front_part < 1048576" by auto
  with e show ?thesis by simp
qed

text \<open>
  When the working set is ordered by the first point id of its parts, the loop over the
  full chunks hands chunk \<open>j\<close> exactly once to every part whose range meets it.
\<close>

lemma pop_filled_keeps:
  "p \<in> set ps \<Longrightarrow> \<not> GetMaxGlobalPointId p < offset \<Longrightarrow> p \<in> set (pop_filled offset ps)"
  by (induction ps) auto

lemma pop_filled_sorted:
  "sorted_wrt by_min ps \<Longrightarrow> sorted_wrt by_min (pop_filled offset ps)"
  by (induction ps) auto

lemma pop_filled_distinct:
  "distinct ps \<Longrightarrow> distinct (pop_filled offset ps)"
  by (induction ps) auto

lemma read_chunk_other_offset:
  "off \<noteq> offset \<Longrightarrow>
   count_list (read_chunk offset k ps) (ReadPointBasedProperty p n k' off) = 0"
  by (induction ps) auto

lemma read_chunk_absent:
  "p \<notin> set ps \<Longrightarrow>
   count_list (read_chunk offset k ps) (ReadPointBasedProperty p n k' off) = 0"
  by (induction ps) auto

lemma read_chunk_once:
  assumes "sorted_wrt by_min ps" and "distinct ps" and "p \<in> set ps"
    and "GetMinGlobalPointId p < offset + numPointsToRead"
  shows "count_list (read_chunk offset k ps)
           (ReadPointBasedProperty p numPointsToRead k offset) = 1"
  using assms
proof (induction ps)
  case Nil
  then show ?case by simp
next
  case (Cons q ps)
  show ?case
  proof (cases "q = p")
    case True
    with Cons.prems show ?thesis by (simp add: read_chunk_absent)
  next
    case False
    with Cons.prems have "by_min q p" by auto
    with Cons.prems(4) have "GetMinGlobalPointId q < offset + numPointsToRead"
      by (simp add: by_min_def)
    with False Cons show ?thesis by auto
  qed
qed

lemma ReadPointProperty_loop_calls:
  "fst (snd (ReadPointProperty_loop (Suc n) offset k ps)) =
     read_chunk offset k (pop_filled offset ps) @
     fst (snd (ReadPointProperty_loop n (offset + numPointsToRead) k (pop_filled offset ps)))"
  by (simp add: Let_def split: prod.splits)

lemma ReadPointProperty_loop_later:
  "off < offset \<Longrightarrow>
   count_list (fst (snd (ReadPointProperty_loop n offset k ps)))
     (ReadPointBasedProperty p m k' off) = 0"
proof (induction n arbitrary: offset ps)
  case 0
  then show ?case by simp
next
  case (Suc n)
  have "off < offset + numPointsToRead" using Suc.prems by (simp add: numPointsToRead_def)
  from Suc.IH [OF this, of "pop_filled offset ps"] Suc.prems show ?case
    by (simp add: ReadPointProperty_loop_calls read_chunk_other_offset del: ReadPointProperty_loop.simps)
qed

lemma ReadPointProperty_loop_once:
  assumes "sorted_wrt by_min ps" and "distinct ps" and "p \<in> set ps" and "j < n"
    and "offset + int j * numPointsToRead \<le> GetMaxGlobalPointId p"
    and "GetMinGlobalPointId p < offset + int j * numPointsToRead + numPointsToRead"
  shows "count_list (fst (snd (ReadPointProperty_loop n offset k ps)))
           (ReadPointBasedProperty p numPointsToRead k (offset + int j * numPointsToRead)) = 1"
  using assms
proof (induction n arbitrary: offset ps j)
  case 0
  then show ?case by simp
next
  case (Suc n)
  let ?rest = "pop_filled offset ps"
  have N: "0 < numPointsToRead" by (simp add: numPointsToRead_def)
  have "0 \<le> int j * numPointsToRead" using N by simp
  with Suc.prems(5) have "\<not> GetMaxGlobalPointId p < offset" by linarith
  with Suc.prems(3) have p: "p \<in> set ?rest" by (rule pop_filled_keeps)
  have s: "sorted_wrt by_min ?rest" and d: "distinct ?rest"
    using Suc.prems(1,2) by (simp_all add: pop_filled_sorted pop_filled_distinct)
  show ?case
  proof (cases j)
    case 0
    have "count_list (read_chunk offset k ?rest)
        (ReadPointBasedProperty p numPointsToRead k offset) = 1"
      using read_chunk_once [OF s d p] Suc.prems(6) 0 by simp
    moreover have "count_list
        (fst (snd (ReadPointProperty_loop n (offset + numPointsToRead) k ?rest)))
        (ReadPointBasedProperty p numPointsToRead k offset) = 0"
      using N by (intro ReadPointProperty_loop_later) simp
    ultimately show ?thesis using 0
      by (simp add: ReadPointProperty_loop_calls del: ReadPointProperty_loop.simps)
  next
    case (Suc j')
    have off: "offset + int j * numPointsToRead =
        offset + numPointsToRead + int j' * numPointsToRead"
      by (simp add: Suc algebra_simps)
    have neq: "offset + int j * numPointsToRead \<noteq> offset"
      using N Suc by simp
    have "count_list (fst (snd (ReadPointProperty_loop n (offset + numPointsToRead) k ?rest)))
        (ReadPointBasedProperty p numPointsToRead k
           (offset + numPointsToRead + int j' * numPointsToRead)) = 1"
      using Suc.prems Suc s d p by (intro Suc.IH) (simp_all add: algebra_simps)
    then show ?thesis
      using read_chunk_other_offset [OF neq, of k ?rest p numPointsToRead k]
      by (simp add: ReadPointProperty_loop_calls off del: ReadPointProperty_loop.simps)
  qed
qed

lemma ReadPointProperty_loop_once_example:
  "sorted_wrt by_min [front_part, wide_part, late_part] \<and>
   distinct [front_part, wide_part, late_part] \<and>
   0 + int 1 * numPointsToRead \<le> GetMaxGlobalPointId wide_part \<and>
   GetMinGlobalPointId wide_part < 0 + int 1 * numPointsToRead + numPointsToRead \<and>
   count_list (fst (snd (ReadPointProperty_loop 5 0 1 [front_part, wide_part, late_part])))
     (ReadPointBasedProperty wide_part numPointsToRead 1 (0 + int 1 * numPointsToRead)) = 1"
proof -
  have s: "sorted_wrt by_min [front_part, wide_part, late_part]"
    by (simp add: by_min_def front_part_def wide_part_def late_part_def)
  have d: "distinct [front_part, wide_part, late_part]"
    by (simp add: front_part_def wide_part_def late_part_def)
  have m: "wide_part \<in> set [front_part, wide_part, late_part]" by simp
  have j: "(1::nat) < 5" by simp
  have hi: "0 + int 1 * numPointsToRead \<le> GetMaxGlobalPointId wide_part"
    by (simp add: wide_part_def numPointsToRead_def)
  have lo: "GetMinGlobalPointId wide_part < 0 + int 1 * numPointsToRead + numPointsToRead"
    by (simp add: wide_part_def numPointsToRead_def)
  from ReadPointProperty_loop_once [OF s d m j hi lo, of 1] s d hi lo show ?thesis by blast
qed

subsection \<open>The working set as the comparison orders it\<close>

lemma sorted_demo: "list_sort sortPartsOnGlobalIds [front_part, wide_part, late_part] = [front_part, late_part, wide_part]"
  by (simp add: list_sort_def sortPartsOnGlobalIds_def front_part_def wide_part_def late_part_def)

text \<open>
  C1. The parts \<open>front_part\<close>, \<open>wide_part\<close> and \<open>late_part\<close>, collected in this order,
  are sorted into the order \<open>front_part\<close>, \<open>late_part\<close>, \<open>wide_part\<close>. The first chunk
  covers the points from 0 up to 1048576. The range of \<open>wide_part\<close> meets it, yet the
  chunk is handed to \<open>front_part\<close> only: the loop stops at \<open>late_part\<close>, which starts
  after the chunk, before it comes to \<open>wide_part\<close>. The second chunk, from 1048576, is
  handed to no part at all.
\<close>

theorem ReadPointProperty_misses_chunk:
  "ReadPointProperty 6000000 1 [front_part, wide_part, late_part] =
     Inr ([SkipWords 0, BufferChunk 1048576, BufferChunk 1048576, BufferChunk 1048576,
           BufferChunk 1048576, BufferChunk 1048576, BufferChunk 0, SkipWords 757120],
          [ReadPointBasedProperty front_part 1048576 1 0,
           ReadPointBasedProperty late_part 1048576 1 2097152,
           ReadPointBasedProperty wide_part 1048576 1 2097152,
           ReadPointBasedProperty late_part 1048576 1 3145728,
           ReadPointBasedProperty wide_part 1048576 1 3145728,
           ReadPointBasedProperty wide_part 1048576 1 4194304,
           ReadPointBasedProperty wide_part 0 1 5242880]) \<and>
   GetMinGlobalPointId wide_part < 0 + numPointsToRead \<and> 0 \<le> GetMaxGlobalPointId wide_part"
proof -
  show ?thesis
    unfolding ReadPointProperty_def sorted_demo
    by (simp add: Let_def cmod_def cdiv_def front_part_def wide_part_def late_part_def
          numPointsToRead_def eval_nat_numeral)
qed

end
